theory Spec2Isabelle
  imports Main "HOL-Library.Word"
begin

section \<open>The intrusive doubly-linked list of dlist.h\<close>

text \<open>
  The list engine of \<^verbatim>\<open>dlist.h\<close> works on link nodes that live inside records owned by
  the caller. The model keeps the memory of link nodes explicit: a heap maps the address
  of every allocated link node to its two fields, and each function of the header takes
  the heap and the list handle and returns them updated. A dereference of the null pointer
  or of an address that holds no link node is undefined behaviour in C; the model makes it
  the error \<open>Fault\<close>. A failed \<^verbatim>\<open>assert\<close> is \<open>AssertFail\<close>, and a call of \<^verbatim>\<open>panic\<close>
  (declared in \<^verbatim>\<open>panic.h\<close>, which never returns) is \<open>Panic\<close>.
\<close>

subsection \<open>Data model\<close>

text \<open>A pointer is an address of a 64-bit machine; the null pointer is the address 0.\<close>

type_synonym ptr = "64 word"

abbreviation NULL :: ptr where
  "NULL \<equiv> 0"

record dlist_node_t =
  "next" :: ptr
  prev :: ptr

record dlist_t =
  head :: ptr
  tail :: ptr

type_synonym heap = "ptr \<Rightarrow> dlist_node_t option"

datatype error = Panic | AssertFail | Fault

text \<open>Reading \<^verbatim>\<open>p->field\<close> and writing \<^verbatim>\<open>p->next = v\<close>, \<^verbatim>\<open>p->prev = v\<close>.\<close>

definition load :: "heap \<Rightarrow> ptr \<Rightarrow> error + dlist_node_t" where
  "load h p = (if p = NULL then Inl Fault
               else case h p of None \<Rightarrow> Inl Fault | Some n \<Rightarrow> Inr n)"

definition store_next :: "heap \<Rightarrow> ptr \<Rightarrow> ptr \<Rightarrow> error + heap" where
  "store_next h p v = (case load h p of Inl e \<Rightarrow> Inl e
                       | Inr n \<Rightarrow> Inr (h(p \<mapsto> n\<lparr>next := v\<rparr>)))"

definition store_prev :: "heap \<Rightarrow> ptr \<Rightarrow> ptr \<Rightarrow> error + heap" where
  "store_prev h p v = (case load h p of Inl e \<Rightarrow> Inl e
                       | Inr n \<Rightarrow> Inr (h(p \<mapsto> n\<lparr>prev := v\<rparr>)))"

subsection \<open>The private functions\<close>

text \<open>Sequencing: an error ends the function, as a fault or an abort ends the C program.\<close>

definition bindE :: "error + 'a \<Rightarrow> ('a \<Rightarrow> error + 'b) \<Rightarrow> error + 'b" where
  "bindE m f = (case m of Inl e \<Rightarrow> Inl e | Inr x \<Rightarrow> f x)"

definition assert :: "bool \<Rightarrow> error + 'a \<Rightarrow> error + 'a" where
  "assert c k = (if c then k else Inl AssertFail)"

definition dlist_init :: "dlist_t \<Rightarrow> dlist_t" where
  "dlist_init root = root\<lparr>head := NULL, tail := NULL\<rparr>"

definition poison :: ptr where
  "poison = 0xdeadbeef"

definition dlist_destroy :: "dlist_t \<Rightarrow> error + dlist_t" where
  "dlist_destroy root =
     (if head root \<noteq> NULL then Inl Panic
      else if tail root \<noteq> NULL then Inl Panic
      else Inr (root\<lparr>head := poison, tail := poison\<rparr>))"

definition dlist_enqueue :: "heap \<Rightarrow> dlist_t \<Rightarrow> ptr \<Rightarrow> error + heap \<times> dlist_t" where
  "dlist_enqueue h root data =
     bindE (store_prev h data NULL) (\<lambda>h1.
     let old_head = head root in
     bindE (store_next h1 data old_head) (\<lambda>h2.
     if old_head = NULL then
       assert (tail root = NULL) (Inr (h2, root\<lparr>tail := data, head := data\<rparr>))
     else
       bindE (load h2 old_head) (\<lambda>n.
       assert (prev n = NULL)
         (bindE (store_prev h2 old_head data) (\<lambda>h3.
          Inr (h3, root\<lparr>head := data\<rparr>))))))"

definition dlist_pushback :: "heap \<Rightarrow> dlist_t \<Rightarrow> ptr \<Rightarrow> error + heap \<times> dlist_t" where
  "dlist_pushback h root data =
     bindE (store_next h data NULL) (\<lambda>h1.
     let old_tail = tail root in
     bindE (store_prev h1 data old_tail) (\<lambda>h2.
     if old_tail = NULL then
       assert (head root = NULL) (Inr (h2, root\<lparr>head := data, tail := data\<rparr>))
     else
       bindE (load h2 old_tail) (\<lambda>n.
       assert (next n = NULL)
         (bindE (store_next h2 old_tail data) (\<lambda>h3.
          Inr (h3, root\<lparr>tail := data\<rparr>))))))"

definition dlist_push :: "heap \<Rightarrow> dlist_t \<Rightarrow> ptr \<Rightarrow> error + heap \<times> dlist_t" where
  "dlist_push h root data = dlist_enqueue h root data"

text \<open>The removals return the heap, the handle and the returned node pointer.\<close>

definition dlist_dequeue :: "heap \<Rightarrow> dlist_t \<Rightarrow> error + heap \<times> dlist_t \<times> ptr" where
  "dlist_dequeue h root =
     (if tail root = NULL then Inr (h, root, NULL)
      else
        let retnode = tail root in
        bindE (load h retnode) (\<lambda>n.
        let root1 = root\<lparr>tail := prev n\<rparr> in
        if head root1 = retnode then Inr (h, root1\<lparr>head := NULL\<rparr>, retnode)
        else bindE (store_next h (tail root1) NULL) (\<lambda>h1. Inr (h1, root1, retnode))))"

definition dlist_pop :: "heap \<Rightarrow> dlist_t \<Rightarrow> error + heap \<times> dlist_t \<times> ptr" where
  "dlist_pop h root =
     (if head root = NULL then Inr (h, root, NULL)
      else
        let retnode = head root in
        bindE (load h retnode) (\<lambda>n.
        let root1 = root\<lparr>head := next n\<rparr> in
        if tail root1 = retnode then Inr (h, root1\<lparr>tail := NULL\<rparr>, retnode)
        else bindE (store_prev h (head root1) NULL) (\<lambda>h1. Inr (h1, root1, retnode))))"

text \<open>
  \<^verbatim>\<open>dlist_remove\<close> reads \<^verbatim>\<open>data->prev\<close> and \<^verbatim>\<open>data->next\<close> anew in each of its two
  statements, the second one after the store of the first.
\<close>

definition dlist_remove :: "heap \<Rightarrow> dlist_t \<Rightarrow> ptr \<Rightarrow> error + heap \<times> dlist_t" where
  "dlist_remove h root data =
     bindE (load h data) (\<lambda>d.
     bindE (if prev d \<noteq> NULL
            then bindE (store_next h (prev d) (next d)) (\<lambda>h1. Inr (h1, root))
            else assert (head root = data) (Inr (h, root\<lparr>head := next d\<rparr>)))
       (\<lambda>(h1, root1).
     bindE (load h1 data) (\<lambda>d1.
     if next d1 \<noteq> NULL
     then bindE (store_prev h1 (next d1) (prev d1)) (\<lambda>h2. Inr (h2, root1))
     else assert (tail root1 = data) (Inr (h1, root1\<lparr>tail := prev d1\<rparr>)))))"

definition dlist_head :: "dlist_t \<Rightarrow> ptr" where
  "dlist_head root = head root"

definition dlist_tail :: "dlist_t \<Rightarrow> ptr" where
  "dlist_tail root = tail root"

text \<open>
  The loop of \<^verbatim>\<open>dlist_check\<close> follows \<^verbatim>\<open>next\<close> pointers, and on a cyclic heap it runs
  forever: \<open>None\<close> is that outcome. The loop returns the last node it saw.
\<close>

partial_function (option) check_loop :: "heap \<Rightarrow> ptr \<Rightarrow> ptr \<Rightarrow> (error + ptr) option" where
  "check_loop h p last_ptr =
     (if p = NULL then Some (Inr last_ptr)
      else if last_ptr \<noteq> NULL then
        (case load h last_ptr of
           Inl e \<Rightarrow> Some (Inl e)
         | Inr l \<Rightarrow>
             (if next l \<noteq> p then Some (Inl AssertFail)
              else (case load h p of
                      Inl e \<Rightarrow> Some (Inl e)
                    | Inr n \<Rightarrow>
                        (if last_ptr \<noteq> prev n then Some (Inl AssertFail)
                         else check_loop h (next n) p))))
      else
        (case load h p of
           Inl e \<Rightarrow> Some (Inl e)
         | Inr n \<Rightarrow>
             (if prev n \<noteq> NULL then Some (Inl AssertFail)
              else check_loop h (next n) p)))"

declare check_loop.simps [code]

definition dlist_check :: "heap \<Rightarrow> dlist_t \<Rightarrow> (error + unit) option" where
  "dlist_check h root =
     (case check_loop h (head root) NULL of
        None \<Rightarrow> None
      | Some (Inl e) \<Rightarrow> Some (Inl e)
      | Some (Inr last_ptr) \<Rightarrow>
          if last_ptr = tail root then Some (Inr ()) else Some (Inl AssertFail))"

subsection \<open>offset.h and the functions DEFINE\_DLIST generates\<close>

text \<open>
  \<^verbatim>\<open>OFFSET(type, name)\<close> depends on the layout of the caller's record type; it is the
  parameter \<open>off\<close> of the typed functions. \<^verbatim>\<open>GET_CONTAINER\<close> subtracts it from the
  address of the link node, and \<^verbatim>\<open>&(data->metaname)\<close> adds it to the record's address.
  Addresses are machine words, so both wrap around.
\<close>

definition GET_CONTAINER :: "ptr \<Rightarrow> ptr \<Rightarrow> ptr" where
  "GET_CONTAINER var off = var - off"

definition member_addr :: "ptr \<Rightarrow> ptr \<Rightarrow> ptr" where
  "member_addr data off = data + off"

definition dlist_type_init :: "dlist_t \<Rightarrow> dlist_t" where
  "dlist_type_init root = dlist_init root"

definition dlist_type_destroy :: "dlist_t \<Rightarrow> error + dlist_t" where
  "dlist_type_destroy root = dlist_destroy root"

definition dlist_type_check :: "heap \<Rightarrow> dlist_t \<Rightarrow> (error + unit) option" where
  "dlist_type_check h root = dlist_check h root"

definition dlist_type_enqueue ::
  "ptr \<Rightarrow> heap \<Rightarrow> dlist_t \<Rightarrow> ptr \<Rightarrow> error + heap \<times> dlist_t" where
  "dlist_type_enqueue off h root data = dlist_enqueue h root (member_addr data off)"

definition dlist_type_pushback ::
  "ptr \<Rightarrow> heap \<Rightarrow> dlist_t \<Rightarrow> ptr \<Rightarrow> error + heap \<times> dlist_t" where
  "dlist_type_pushback off h root data = dlist_pushback h root (member_addr data off)"

definition dlist_type_push ::
  "ptr \<Rightarrow> heap \<Rightarrow> dlist_t \<Rightarrow> ptr \<Rightarrow> error + heap \<times> dlist_t" where
  "dlist_type_push off h root data = dlist_push h root (member_addr data off)"

definition dlist_type_dequeue ::
  "ptr \<Rightarrow> heap \<Rightarrow> dlist_t \<Rightarrow> error + heap \<times> dlist_t \<times> ptr" where
  "dlist_type_dequeue off h root =
     (case dlist_dequeue h root of Inl e \<Rightarrow> Inl e
      | Inr (h1, root1, r) \<Rightarrow> Inr (h1, root1, GET_CONTAINER r off))"

definition dlist_type_pop ::
  "ptr \<Rightarrow> heap \<Rightarrow> dlist_t \<Rightarrow> error + heap \<times> dlist_t \<times> ptr" where
  "dlist_type_pop off h root =
     (case dlist_pop h root of Inl e \<Rightarrow> Inl e
      | Inr (h1, root1, r) \<Rightarrow> Inr (h1, root1, GET_CONTAINER r off))"

definition dlist_type_remove ::
  "ptr \<Rightarrow> heap \<Rightarrow> dlist_t \<Rightarrow> ptr \<Rightarrow> error + heap \<times> dlist_t" where
  "dlist_type_remove off h root data = dlist_remove h root (member_addr data off)"

definition dlist_type_head :: "ptr \<Rightarrow> dlist_t \<Rightarrow> ptr" where
  "dlist_type_head off root = GET_CONTAINER (dlist_head root) off"

definition dlist_type_tail :: "ptr \<Rightarrow> dlist_t \<Rightarrow> ptr" where
  "dlist_type_tail off root = GET_CONTAINER (dlist_tail root) off"

text \<open>
  The reducer \<^verbatim>\<open>func(record, result, &terminate)\<close> returns the new accumulator and may
  set the flag, which every iteration first clears: it is a function to a pair of the
  accumulator and the flag. The last argument of the loops, \<open>visited\<close>, is not in the
  source: it logs the records the reducer was called on, in call order, so that the
  number and the order of the calls can be stated.
\<close>

partial_function (option) foldr_loop ::
  "ptr \<Rightarrow> heap \<Rightarrow> (ptr \<Rightarrow> 'a \<Rightarrow> 'a \<times> bool) \<Rightarrow> ptr \<Rightarrow> 'a \<Rightarrow> ptr list
     \<Rightarrow> (error + 'a \<times> ptr list) option" where
  "foldr_loop off h func p result visited =
     (if p = NULL then Some (Inr (result, visited))
      else
        (case func (GET_CONTAINER p off) result of
           (result1, terminate) \<Rightarrow>
             (if terminate then Some (Inr (result1, visited @ [GET_CONTAINER p off]))
              else (case load h p of
                      Inl e \<Rightarrow> Some (Inl e)
                    | Inr n \<Rightarrow> foldr_loop off h func (next n) result1
                                 (visited @ [GET_CONTAINER p off])))))"

partial_function (option) foldl_loop ::
  "ptr \<Rightarrow> heap \<Rightarrow> (ptr \<Rightarrow> 'a \<Rightarrow> 'a \<times> bool) \<Rightarrow> ptr \<Rightarrow> 'a \<Rightarrow> ptr list
     \<Rightarrow> (error + 'a \<times> ptr list) option" where
  "foldl_loop off h func p result visited =
     (if p = NULL then Some (Inr (result, visited))
      else
        (case func (GET_CONTAINER p off) result of
           (result1, terminate) \<Rightarrow>
             (if terminate then Some (Inr (result1, visited @ [GET_CONTAINER p off]))
              else (case load h p of
                      Inl e \<Rightarrow> Some (Inl e)
                    | Inr n \<Rightarrow> foldl_loop off h func (prev n) result1
                                 (visited @ [GET_CONTAINER p off])))))"

declare foldr_loop.simps [code]

declare foldl_loop.simps [code]

definition dlist_type_foldr ::
  "ptr \<Rightarrow> heap \<Rightarrow> dlist_t \<Rightarrow> (ptr \<Rightarrow> 'a \<Rightarrow> 'a \<times> bool) \<Rightarrow> 'a
     \<Rightarrow> (error + 'a \<times> ptr list) option" where
  "dlist_type_foldr off h root func init = foldr_loop off h func (head root) init []"

definition dlist_type_foldl ::
  "ptr \<Rightarrow> heap \<Rightarrow> dlist_t \<Rightarrow> (ptr \<Rightarrow> 'a \<Rightarrow> 'a \<times> bool) \<Rightarrow> 'a
     \<Rightarrow> (error + 'a \<times> ptr list) option" where
  "dlist_type_foldl off h root func init = foldl_loop off h func (tail root) init []"

subsection \<open>Sequences of public operations\<close>

text \<open>
  A caller's program is a list of operations of the typed interface on one handle. The
  run keeps, besides the heap and the handle, the record pointers that \<^verbatim>\<open>pop\<close> and
  \<^verbatim>\<open>dequeue\<close> returned, in call order.
\<close>

datatype op = Enqueue ptr | Pushback ptr | Push ptr | Pop | Dequeue | Remove ptr

fun step :: "ptr \<Rightarrow> heap \<times> dlist_t \<times> ptr list \<Rightarrow> op \<Rightarrow> error + heap \<times> dlist_t \<times> ptr list" where
  "step off (h, root, outs) (Enqueue r) =
     bindE (dlist_type_enqueue off h root r) (\<lambda>(h1, root1). Inr (h1, root1, outs))"
| "step off (h, root, outs) (Pushback r) =
     bindE (dlist_type_pushback off h root r) (\<lambda>(h1, root1). Inr (h1, root1, outs))"
| "step off (h, root, outs) (Push r) =
     bindE (dlist_type_push off h root r) (\<lambda>(h1, root1). Inr (h1, root1, outs))"
| "step off (h, root, outs) Pop =
     bindE (dlist_type_pop off h root) (\<lambda>(h1, root1, r). Inr (h1, root1, outs @ [r]))"
| "step off (h, root, outs) Dequeue =
     bindE (dlist_type_dequeue off h root) (\<lambda>(h1, root1, r). Inr (h1, root1, outs @ [r]))"
| "step off (h, root, outs) (Remove r) =
     bindE (dlist_type_remove off h root r) (\<lambda>(h1, root1). Inr (h1, root1, outs))"

fun run :: "ptr \<Rightarrow> heap \<times> dlist_t \<times> ptr list \<Rightarrow> op list \<Rightarrow> error + heap \<times> dlist_t \<times> ptr list" where
  "run off s [] = Inr s"
| "run off s (x # ops) = bindE (step off s x) (\<lambda>s1. run off s1 ops)"

definition outputs :: "error + heap \<times> dlist_t \<times> ptr list \<Rightarrow> error + ptr list" where
  "outputs res = bindE res (\<lambda>(h, root, outs). Inr outs)"

subsection \<open>The list a heap and a handle represent\<close>

text \<open>
  \<open>dseg h p xs q\<close>: the link nodes at the addresses \<open>xs\<close> are chained in this order, the
  first one's \<^verbatim>\<open>prev\<close> is \<open>p\<close> and the last one's \<^verbatim>\<open>next\<close> is \<open>q\<close>. \<open>dlist h root xs\<close>
  is the representation invariant of section 3 of the specification: the handle's
  \<^verbatim>\<open>head\<close> and \<^verbatim>\<open>tail\<close> are the ends of a chain of distinct nodes, closed by null on both
  sides, and both are null when there is no node. \<open>tlist\<close> is the same for the records
  of a bound type, whose link nodes lie \<open>off\<close> bytes into the record.
\<close>

fun dseg :: "heap \<Rightarrow> ptr \<Rightarrow> ptr list \<Rightarrow> ptr \<Rightarrow> bool" where
  "dseg h p [] q = True"
| "dseg h p (x # xs) q =
     (x \<noteq> NULL \<and> h x \<noteq> None \<and> prev (the (h x)) = p \<and>
      next (the (h x)) = (if xs = [] then q else hd xs) \<and>
      dseg h x xs q)"

definition dlist :: "heap \<Rightarrow> dlist_t \<Rightarrow> ptr list \<Rightarrow> bool" where
  "dlist h root xs =
     (distinct xs \<and> dseg h NULL xs NULL \<and>
      head root = (if xs = [] then NULL else hd xs) \<and>
      tail root = (if xs = [] then NULL else last xs))"

definition tlist :: "ptr \<Rightarrow> heap \<Rightarrow> dlist_t \<Rightarrow> ptr list \<Rightarrow> bool" where
  "tlist off h root rs = dlist h root (map (\<lambda>r. member_addr r off) rs)"

text \<open>
  What each operation does to the represented list of records, what it returns, and
  what the caller owes before calling it: a record to insert has an allocated, non-null
  link node and is not in the list; a record to remove is in the list.
\<close>

fun abs_step :: "ptr list \<Rightarrow> op \<Rightarrow> ptr list" where
  "abs_step rs (Enqueue r) = r # rs"
| "abs_step rs (Pushback r) = rs @ [r]"
| "abs_step rs (Push r) = r # rs"
| "abs_step rs Pop = tl rs"
| "abs_step rs Dequeue = butlast rs"
| "abs_step rs (Remove r) = remove1 r rs"

fun abs_out :: "ptr \<Rightarrow> ptr list \<Rightarrow> op \<Rightarrow> ptr list" where
  "abs_out off rs Pop = [if rs = [] then GET_CONTAINER NULL off else hd rs]"
| "abs_out off rs Dequeue = [if rs = [] then GET_CONTAINER NULL off else last rs]"
| "abs_out off rs x = []"

definition insertable :: "ptr \<Rightarrow> heap \<Rightarrow> ptr list \<Rightarrow> ptr \<Rightarrow> bool" where
  "insertable off h rs r =
     (member_addr r off \<noteq> NULL \<and> h (member_addr r off) \<noteq> None \<and> r \<notin> set rs)"

fun ok_op :: "ptr \<Rightarrow> heap \<Rightarrow> ptr list \<Rightarrow> op \<Rightarrow> bool" where
  "ok_op off h rs (Enqueue r) = insertable off h rs r"
| "ok_op off h rs (Pushback r) = insertable off h rs r"
| "ok_op off h rs (Push r) = insertable off h rs r"
| "ok_op off h rs Pop = True"
| "ok_op off h rs Dequeue = True"
| "ok_op off h rs (Remove r) = (r \<in> set rs)"

fun valid_ops :: "ptr \<Rightarrow> heap \<Rightarrow> ptr list \<Rightarrow> op list \<Rightarrow> bool" where
  "valid_ops off h rs [] = True"
| "valid_ops off h rs (x # ops) = (ok_op off h rs x \<and> valid_ops off h (abs_step rs x) ops)"

fun abs_run :: "ptr list \<Rightarrow> op list \<Rightarrow> ptr list" where
  "abs_run rs [] = rs"
| "abs_run rs (x # ops) = abs_run (abs_step rs x) ops"

fun abs_outs :: "ptr \<Rightarrow> ptr list \<Rightarrow> op list \<Rightarrow> ptr list" where
  "abs_outs off rs [] = []"
| "abs_outs off rs (x # ops) = abs_out off rs x @ abs_outs off (abs_step rs x) ops"

text \<open>
  A fold over the records \<open>rs\<close> in visiting order, as a function of the list alone:
  the result and the log of a traversal that stops after the first call that sets the
  flag. \<open>accs f rs a k\<close> is the accumulator after \<open>k\<close> calls and \<open>sets_flag f rs a j\<close>
  tells whether call number \<open>j + 1\<close> sets the flag.
\<close>

fun fold_spec :: "(ptr \<Rightarrow> 'a \<Rightarrow> 'a \<times> bool) \<Rightarrow> ptr list \<Rightarrow> 'a \<Rightarrow> ptr list \<Rightarrow> 'a \<times> ptr list" where
  "fold_spec f [] a vis = (a, vis)"
| "fold_spec f (r # rs) a vis =
     (if snd (f r a) then (fst (f r a), vis @ [r])
      else fold_spec f rs (fst (f r a)) (vis @ [r]))"

definition accs :: "(ptr \<Rightarrow> 'a \<Rightarrow> 'a \<times> bool) \<Rightarrow> ptr list \<Rightarrow> 'a \<Rightarrow> nat \<Rightarrow> 'a" where
  "accs f rs a k = foldl (\<lambda>b r. fst (f r b)) a (take k rs)"

definition sets_flag :: "(ptr \<Rightarrow> 'a \<Rightarrow> 'a \<times> bool) \<Rightarrow> ptr list \<Rightarrow> 'a \<Rightarrow> nat \<Rightarrow> bool" where
  "sets_flag f rs a j = snd (f (rs ! j) (accs f rs a j))"

subsection \<open>Concrete memories for the examples\<close>

text \<open>
  \<open>alloc_heap ps\<close> holds a link node at every address of \<open>ps\<close>, as after \<^verbatim>\<open>malloc\<close>: the
  fields hold the stale value \<open>0x5a5a\<close>, which no operation may rely on.
\<close>

definition alloc_heap :: "ptr list \<Rightarrow> heap" where
  "alloc_heap ps = (\<lambda>p. if p \<in> set ps then Some \<lparr>next = 0x5a5a, prev = 0x5a5a\<rparr> else None)"

definition root0 :: dlist_t where
  "root0 = \<lparr>head = 0x5a5a, tail = 0x5a5a\<rparr>"

text \<open>A list of the two nodes at 8 and 16, and a third node allocated at 24.\<close>

definition two_heap :: heap where
  "two_heap = (alloc_heap [24])(8 \<mapsto> \<lparr>next = 16, prev = NULL\<rparr>, 16 \<mapsto> \<lparr>next = NULL, prev = 8\<rparr>)"

definition two_root :: dlist_t where
  "two_root = \<lparr>head = 8, tail = 16\<rparr>"

text \<open>
  Twenty records, 16 bytes apart, whose link node lies 8 bytes into the record and whose
  value is the number of the record.
\<close>

definition twenty_recs :: "ptr list" where
  "twenty_recs = [16, 32, 48, 64, 80, 96, 112, 128, 144, 160,
                  176, 192, 208, 224, 240, 256, 272, 288, 304, 320]"

definition rec_data :: "ptr \<Rightarrow> int" where
  "rec_data r = uint r div 16"

definition twenty_heap :: heap where
  "twenty_heap = alloc_heap (map (\<lambda>r. member_addr r 8) twenty_recs)"

section \<open>The operations preserve the representation\<close>

subsection \<open>Chains of link nodes\<close>

lemma dseg_upd_other: "x \<notin> set xs \<Longrightarrow> dseg (h(x := v)) p xs q = dseg h p xs q"
  by (induction xs arbitrary: p) auto

lemma dseg_nonnull: "dseg h p xs q \<Longrightarrow> NULL \<notin> set xs"
  by (induction xs arbitrary: p) auto

lemma dseg_alloc: "dseg h p xs q \<Longrightarrow> x \<in> set xs \<Longrightarrow> h x \<noteq> None"
  by (induction xs arbitrary: p) auto

lemma dseg_append:
  "dseg h p (xs @ ys) q =
     (dseg h p xs (if ys = [] then q else hd ys) \<and>
      dseg h (if xs = [] then p else last xs) ys q)"
proof (induction xs arbitrary: p)
  case Nil
  show ?case by simp
next
  case (Cons x xs)
  show ?case by (auto simp: Cons.IH hd_append)
qed

lemma dseg_snoc:
  "dseg h p (xs @ [x]) q =
     (dseg h p xs x \<and> x \<noteq> NULL \<and> h x \<noteq> None \<and>
      prev (the (h x)) = (if xs = [] then p else last xs) \<and> next (the (h x)) = q)"
  by (simp add: dseg_append)

lemma dlist_Nil: "dlist h root [] = (head root = NULL \<and> tail root = NULL)"
  by (simp add: dlist_def)

lemma dlist_init_empty: "dlist h (dlist_init root) []"
  by (simp add: dlist_def dlist_init_def)

lemma dlist_Cons:
  "dlist h root (x # xs) =
     (x \<notin> set xs \<and> distinct xs \<and> x \<noteq> NULL \<and> h x \<noteq> None \<and> prev (the (h x)) = NULL \<and>
      next (the (h x)) = (if xs = [] then NULL else hd xs) \<and> dseg h x xs NULL \<and>
      head root = x \<and> tail root = (if xs = [] then x else last xs))"
  by (auto simp: dlist_def)

lemma dlist_snoc:
  "dlist h root (xs @ [x]) =
     (x \<notin> set xs \<and> distinct xs \<and> x \<noteq> NULL \<and> h x \<noteq> None \<and> next (the (h x)) = NULL \<and>
      prev (the (h x)) = (if xs = [] then NULL else last xs) \<and> dseg h NULL xs x \<and>
      tail root = x \<and> head root = (if xs = [] then x else hd xs))"
  by (auto simp: dlist_def dseg_snoc)

lemma dseg_relink_last:
  assumes "dseg h p zs q" "zs \<noteq> []" "distinct zs" "h (last zs) = Some m"
  shows "dseg (h(last zs \<mapsto> m\<lparr>next := q'\<rparr>)) p zs q'"
proof -
  from assms(2) obtain ys x where zs: "zs = ys @ [x]"
    by (cases zs rule: rev_cases) auto
  with assms show ?thesis
    by (simp add: dseg_snoc dseg_upd_other)
qed

lemma dseg_relink_hd:
  assumes "dseg h p zs q" "zs \<noteq> []" "distinct zs" "h (hd zs) = Some m"
  shows "dseg (h(hd zs \<mapsto> m\<lparr>prev := p'\<rparr>)) p' zs q"
proof -
  from assms(2) obtain x ys where zs: "zs = x # ys"
    by (cases zs) auto
  with assms show ?thesis
    by (simp add: dseg_upd_other)
qed

lemma dlist_hd:
  assumes "dlist h root xs" "xs \<noteq> []"
  shows "head root = hd xs" "hd xs \<noteq> NULL" "h (hd xs) \<noteq> None" "prev (the (h (hd xs))) = NULL"
    "next (the (h (hd xs))) = (if tl xs = [] then NULL else hd (tl xs))"
  using assms by (cases xs; simp add: dlist_Cons)+

lemma dlist_last:
  assumes "dlist h root xs" "xs \<noteq> []"
  shows "tail root = last xs" "last xs \<noteq> NULL" "h (last xs) \<noteq> None"
    "next (the (h (last xs))) = NULL"
    "prev (the (h (last xs))) = (if butlast xs = [] then NULL else last (butlast xs))"
  using assms by (cases xs rule: rev_cases; simp add: dlist_snoc)+

lemmas exec_simps =
  store_prev_def store_next_def load_def bindE_def assert_def Let_def

lemma enqueue_correct:
  assumes "dlist h root xs" "d \<noteq> NULL" "h d \<noteq> None" "d \<notin> set xs"
  shows "\<exists>h' root'. dlist_enqueue h root d = Inr (h', root') \<and> dlist h' root' (d # xs) \<and>
           (\<forall>p. p \<noteq> d \<longrightarrow> p \<noteq> head root \<longrightarrow> h' p = h p) \<and>
           (\<forall>p. (h' p = None) = (h p = None))"
proof (cases "xs = []")
  case True
  with assms show ?thesis
    by (auto simp: dlist_Cons dlist_Nil dlist_enqueue_def exec_simps)
next
  case False
  note hd = dlist_hd [OF assms(1) False]
  from assms obtain n where n: "h d = Some n" by auto
  from hd obtain m where m: "h (hd xs) = Some m" "prev m = NULL" by auto
  from False assms have ne: "hd xs \<noteq> d" by auto
  define h1 where "h1 = h(d \<mapsto> n\<lparr>prev := NULL, next := hd xs\<rparr>)"
  define h' where "h' = h1(hd xs \<mapsto> m\<lparr>prev := d\<rparr>)"
  have res: "dlist_enqueue h root d = Inr (h', root\<lparr>head := d\<rparr>)"
    using assms(2) n m ne hd(1,2) False
    by (simp add: dlist_enqueue_def exec_simps h'_def h1_def)
  from assms(1) have seg: "dseg h NULL xs NULL" and dist: "distinct xs"
    by (simp_all add: dlist_def)
  from seg assms(4) have "dseg h1 NULL xs NULL"
    by (simp add: h1_def dseg_upd_other)
  moreover have "h1 (hd xs) = Some m"
    using m ne by (simp add: h1_def)
  ultimately have "dseg h' d xs NULL"
    unfolding h'_def using False dist by (intro dseg_relink_hd)
  then have "dlist h' (root\<lparr>head := d\<rparr>) (d # xs)"
    using assms(2,4) dist False ne dlist_last(1) [OF assms(1) False]
    by (simp add: dlist_Cons h'_def h1_def)
  moreover have "\<forall>p. p \<noteq> d \<longrightarrow> p \<noteq> head root \<longrightarrow> h' p = h p"
    by (simp add: h'_def h1_def hd(1))
  moreover have "\<forall>p. (h' p = None) = (h p = None)"
    using n m by (simp add: h'_def h1_def)
  ultimately show ?thesis using res by blast
qed

lemma pushback_correct:
  assumes "dlist h root xs" "d \<noteq> NULL" "h d \<noteq> None" "d \<notin> set xs"
  shows "\<exists>h' root'. dlist_pushback h root d = Inr (h', root') \<and> dlist h' root' (xs @ [d]) \<and>
           (\<forall>p. p \<noteq> d \<longrightarrow> p \<noteq> tail root \<longrightarrow> h' p = h p) \<and>
           (\<forall>p. (h' p = None) = (h p = None))"
proof (cases "xs = []")
  case True
  with assms show ?thesis
    by (auto simp: dlist_Cons dlist_Nil dlist_pushback_def exec_simps)
next
  case False
  note lst = dlist_last [OF assms(1) False]
  from assms obtain n where n: "h d = Some n" by auto
  from lst obtain m where m: "h (last xs) = Some m" "next m = NULL" by auto
  from False assms have ne: "last xs \<noteq> d" by auto
  define h1 where "h1 = h(d \<mapsto> n\<lparr>next := NULL, prev := last xs\<rparr>)"
  define h' where "h' = h1(last xs \<mapsto> m\<lparr>next := d\<rparr>)"
  have res: "dlist_pushback h root d = Inr (h', root\<lparr>tail := d\<rparr>)"
    using assms(2) n m ne lst(1,2) False
    by (simp add: dlist_pushback_def exec_simps h'_def h1_def)
  from assms(1) have seg: "dseg h NULL xs NULL" and dist: "distinct xs"
    by (simp_all add: dlist_def)
  from seg assms(4) have "dseg h1 NULL xs NULL"
    by (simp add: h1_def dseg_upd_other)
  moreover have "h1 (last xs) = Some m"
    using m ne by (simp add: h1_def)
  ultimately have "dseg h' NULL xs d"
    unfolding h'_def using False dist by (intro dseg_relink_last)
  then have "dlist h' (root\<lparr>tail := d\<rparr>) (xs @ [d])"
    using assms(2,4) dist False ne dlist_hd(1) [OF assms(1) False]
    by (simp add: dlist_snoc h'_def h1_def)
  moreover have "\<forall>p. p \<noteq> d \<longrightarrow> p \<noteq> tail root \<longrightarrow> h' p = h p"
    by (simp add: h'_def h1_def lst(1))
  moreover have "\<forall>p. (h' p = None) = (h p = None)"
    using n m by (simp add: h'_def h1_def)
  ultimately show ?thesis using res by blast
qed

lemma pop_correct:
  assumes "dlist h root xs"
  shows "\<exists>h' root'. dlist_pop h root = Inr (h', root', head root) \<and> dlist h' root' (tl xs) \<and>
           head root = (if xs = [] then NULL else hd xs) \<and>
           (\<forall>p. p \<noteq> head root' \<longrightarrow> h' p = h p) \<and>
           (\<forall>p. (h' p = None) = (h p = None))"
proof (cases xs)
  case Nil
  with assms show ?thesis
    by (simp add: dlist_Nil dlist_pop_def)
next
  case (Cons x zs)
  from assms Cons have x: "head root = x" "x \<noteq> NULL" "h x \<noteq> None" "x \<notin> set zs"
    "distinct zs" "dseg h x zs NULL"
    by (simp_all add: dlist_Cons)
  then obtain n where n: "h x = Some n" by auto
  show ?thesis
  proof (cases "zs = []")
    case True
    with assms Cons show ?thesis
      by (auto simp: dlist_Cons dlist_Nil dlist_pop_def exec_simps)
  next
    case False
    from assms Cons False have nx: "next n = hd zs" "tail root = last zs"
      using n by (simp_all add: dlist_Cons)
    from False x(4) have ne: "last zs \<noteq> x" "hd zs \<noteq> x" by auto
    from x(6) False have z: "hd zs \<noteq> NULL" "h (hd zs) \<noteq> None"
      by (cases zs; simp)+
    then obtain m where m: "h (hd zs) = Some m" by auto
    define h' where "h' = h(hd zs \<mapsto> m\<lparr>prev := NULL\<rparr>)"
    have res: "dlist_pop h root = Inr (h', root\<lparr>head := hd zs\<rparr>, head root)"
      using x(1,2) n nx ne z(1) m
      by (simp add: dlist_pop_def exec_simps h'_def)
    have "dseg h' NULL zs NULL"
      unfolding h'_def using x(6) False x(5) m by (rule dseg_relink_hd)
    then have "dlist h' (root\<lparr>head := hd zs\<rparr>) (tl xs)"
      using Cons False x(5) nx(2) by (simp add: dlist_def)
    moreover have "\<forall>p. p \<noteq> hd zs \<longrightarrow> h' p = h p"
      by (simp add: h'_def)
    moreover have "\<forall>p. (h' p = None) = (h p = None)"
      using m by (simp add: h'_def)
    ultimately show ?thesis using res Cons x(1) by simp
  qed
qed

lemma dequeue_correct:
  assumes "dlist h root xs"
  shows "\<exists>h' root'. dlist_dequeue h root = Inr (h', root', tail root) \<and>
           dlist h' root' (butlast xs) \<and>
           tail root = (if xs = [] then NULL else last xs) \<and>
           (\<forall>p. p \<noteq> tail root' \<longrightarrow> h' p = h p) \<and>
           (\<forall>p. (h' p = None) = (h p = None))"
proof (cases xs rule: rev_cases)
  case Nil
  with assms show ?thesis
    by (simp add: dlist_Nil dlist_dequeue_def)
next
  case (snoc zs x)
  from assms snoc have x: "tail root = x" "x \<noteq> NULL" "h x \<noteq> None" "x \<notin> set zs"
    "distinct zs" "dseg h NULL zs x"
    by (simp_all add: dlist_snoc)
  then obtain n where n: "h x = Some n" by auto
  show ?thesis
  proof (cases "zs = []")
    case True
    with assms snoc show ?thesis
      by (auto simp: dlist_Cons dlist_Nil dlist_dequeue_def exec_simps)
  next
    case False
    from assms snoc False have pv: "prev n = last zs" "head root = hd zs"
      using n by (simp_all add: dlist_snoc)
    from False x(4) have ne: "last zs \<noteq> x" "hd zs \<noteq> x" by auto
    from False have "last zs \<in> set zs" by simp
    with x(6) have z: "last zs \<noteq> NULL" "h (last zs) \<noteq> None"
      using dseg_nonnull dseg_alloc by metis+
    then obtain m where m: "h (last zs) = Some m" by auto
    define h' where "h' = h(last zs \<mapsto> m\<lparr>next := NULL\<rparr>)"
    have res: "dlist_dequeue h root = Inr (h', root\<lparr>tail := last zs\<rparr>, tail root)"
      using x(1,2) n pv ne z(1) m
      by (simp add: dlist_dequeue_def exec_simps h'_def)
    have "dseg h' NULL zs NULL"
      unfolding h'_def using x(6) False x(5) m by (rule dseg_relink_last)
    then have "dlist h' (root\<lparr>tail := last zs\<rparr>) (butlast xs)"
      using snoc False x(5) pv(2) by (simp add: dlist_def)
    moreover have "\<forall>p. p \<noteq> last zs \<longrightarrow> h' p = h p"
      by (simp add: h'_def)
    moreover have "\<forall>p. (h' p = None) = (h p = None)"
      using m by (simp add: h'_def)
    ultimately show ?thesis using res snoc x(1) by simp
  qed
qed

lemma remove_correct:
  assumes "dlist h root xs" "d \<in> set xs"
  shows "\<exists>h' root'. dlist_remove h root d = Inr (h', root') \<and>
           dlist h' root' (remove1 d xs) \<and>
           (\<forall>p. p \<noteq> prev (the (h d)) \<longrightarrow> p \<noteq> next (the (h d)) \<longrightarrow> h' p = h p) \<and>
           h' d = h d \<and>
           (\<forall>p. (h' p = None) = (h p = None))"
proof -
  from assms(2) obtain ys zs where xs: "xs = ys @ d # zs"
    by (auto simp: in_set_conv_decomp)
  from assms(1) have dist: "distinct ys" "distinct zs" "d \<notin> set ys" "d \<notin> set zs"
    "set ys \<inter> set zs = {}"
    by (auto simp: dlist_def xs)
  have rem: "remove1 d xs = ys @ zs"
    using dist(3) by (simp add: xs remove1_append)
  from assms(1) have seg: "dseg h NULL ys d" "dseg h d zs NULL" and d: "d \<noteq> NULL" "h d \<noteq> None"
    and pv: "prev (the (h d)) = (if ys = [] then NULL else last ys)"
    and nx: "next (the (h d)) = (if zs = [] then NULL else hd zs)"
    by (simp_all add: dlist_def xs dseg_append)
  from d obtain n where n: "h d = Some n" by auto
  from assms(1) have hdtl: "head root = (if ys = [] then d else hd ys)"
    "tail root = (if zs = [] then d else last zs)"
    by (simp_all add: dlist_def xs)
  have ysl: "last ys \<noteq> NULL \<and> h (last ys) \<noteq> None \<and> last ys \<noteq> d \<and> last ys \<notin> set zs"
    if "ys \<noteq> []"
  proof -
    from that have "last ys \<in> set ys" by simp
    with seg(1) dist show ?thesis
      using dseg_nonnull dseg_alloc by (metis disjoint_iff)
  qed
  have zsh: "hd zs \<noteq> NULL \<and> h (hd zs) \<noteq> None \<and> hd zs \<noteq> d \<and> hd zs \<notin> set ys"
    if "zs \<noteq> []"
  proof -
    from that have "hd zs \<in> set zs" by simp
    with seg(2) dist show ?thesis
      using dseg_nonnull dseg_alloc by (metis disjoint_iff)
  qed
  define h1 where
    "h1 = (if ys = [] then h else h(last ys \<mapsto> (the (h (last ys)))\<lparr>next := next n\<rparr>))"
  define root1 where "root1 = (if ys = [] then root\<lparr>head := next n\<rparr> else root)"
  define h2 where
    "h2 = (if zs = [] then h1 else h1(hd zs \<mapsto> (the (h1 (hd zs)))\<lparr>prev := prev n\<rparr>))"
  define root2 where "root2 = (if zs = [] then root1\<lparr>tail := prev n\<rparr> else root1)"
  have h1d: "h1 d = Some n"
    using n ysl by (auto simp: h1_def)
  have h1z: "h1 (hd zs) = h (hd zs)" if "zs \<noteq> []"
    using ysl zsh [OF that] hd_in_set [OF that] by (auto simp: h1_def)
  have res: "dlist_remove h root d = Inr (h2, root2)"
    using d n pv nx hdtl ysl zsh h1d h1z
    by (cases "ys = []"; cases "zs = []")
       (auto simp: dlist_remove_def exec_simps h1_def h2_def root1_def root2_def)
  have A: "dseg h1 NULL ys (next n)"
  proof (cases "ys = []")
    case True
    then show ?thesis by simp
  next
    case False
    with ysl obtain m where "h (last ys) = Some m" by auto
    with seg(1) False dist(1) show ?thesis
      by (simp add: h1_def dseg_relink_last)
  qed
  have B: "dseg h1 d zs NULL"
    using seg(2) ysl by (auto simp: h1_def dseg_upd_other)
  have C: "dseg h2 NULL ys (next n)"
    using A zsh by (auto simp: h2_def dseg_upd_other)
  have D: "dseg h2 (prev n) zs NULL"
  proof (cases "zs = []")
    case True
    then show ?thesis by simp
  next
    case False
    with zsh h1z obtain k where "h1 (hd zs) = Some k" by auto
    with B False dist(2) show ?thesis
      by (simp add: h2_def dseg_relink_hd)
  qed
  have "dseg h2 NULL (ys @ zs) NULL"
    using C D n pv nx by (simp add: dseg_append)
  moreover have "distinct (ys @ zs)"
    using dist by simp
  moreover have "head root2 = (if ys @ zs = [] then NULL else hd (ys @ zs))"
    using hdtl n pv nx by (auto simp: root2_def root1_def hd_append)
  moreover have "tail root2 = (if ys @ zs = [] then NULL else last (ys @ zs))"
    using hdtl n pv nx by (auto simp: root2_def root1_def)
  ultimately have "dlist h2 root2 (remove1 d xs)"
    by (simp add: dlist_def rem)
  moreover have "\<forall>p. p \<noteq> prev (the (h d)) \<longrightarrow> p \<noteq> next (the (h d)) \<longrightarrow> h2 p = h p"
    using n pv nx by (auto simp: h2_def h1_def)
  moreover have "h2 d = h d"
    using ysl zsh by (cases "ys = []"; cases "zs = []") (auto simp: h2_def h1_def)
  moreover have "\<forall>p. (h2 p = None) = (h p = None)"
    using ysl zsh by (cases "ys = []"; cases "zs = []") (auto simp: h2_def h1_def)
  ultimately show ?thesis using res by blast
qed

section \<open>Destruction and the empty list\<close>

lemma poison_odd: "\<not> 2 dvd unat poison"
  by (simp add: poison_def)

lemma poison_nonnull: "poison \<noteq> NULL"
  by (simp add: poison_def)

text \<open>
  Claim C3. \<^verbatim>\<open>dlist_destroy\<close> on a handle whose \<^verbatim>\<open>head\<close> or \<^verbatim>\<open>tail\<close> is not null
  calls \<^verbatim>\<open>panic\<close>. On a handle with both null it returns, and has written the poison
  \<^verbatim>\<open>0xdeadbeef\<close> into both fields. The poison is not null, and it is odd, so it is the
  address of no object aligned to two bytes or more, as every \<^verbatim>\<open>dlist_node_t\<close> is.
  The poisoned handle cannot be used: a second destroy panics, and on a memory that has
  no link node at the poison address every insertion, every removal from an end and the
  check fault at their first access through the handle. \<^verbatim>\<open>dlist_init\<close> makes it an
  empty list again.
\<close>

theorem destroy_panics_or_poisons:
  "(head root \<noteq> NULL \<or> tail root \<noteq> NULL \<longrightarrow> dlist_destroy root = Inl Panic) \<and>
   (head root = NULL \<and> tail root = NULL \<longrightarrow>
      dlist_destroy root = Inr (root\<lparr>head := poison, tail := poison\<rparr>) \<and>
      poison \<noteq> NULL \<and>
      (\<forall>p. 2 dvd unat p \<longrightarrow> p \<noteq> poison) \<and>
      dlist_destroy (root\<lparr>head := poison, tail := poison\<rparr>) = Inl Panic \<and>
      (h poison = None \<longrightarrow>
         dlist_enqueue h (root\<lparr>head := poison, tail := poison\<rparr>) d = Inl Fault \<and>
         dlist_pushback h (root\<lparr>head := poison, tail := poison\<rparr>) d = Inl Fault \<and>
         dlist_pop h (root\<lparr>head := poison, tail := poison\<rparr>) = Inl Fault \<and>
         dlist_dequeue h (root\<lparr>head := poison, tail := poison\<rparr>) = Inl Fault \<and>
         dlist_check h (root\<lparr>head := poison, tail := poison\<rparr>) = Some (Inl Fault)) \<and>
      dlist h (dlist_init (root\<lparr>head := poison, tail := poison\<rparr>)) [])"
proof -
  have odd: "\<forall>p. 2 dvd unat p \<longrightarrow> p \<noteq> poison"
    using poison_odd by auto
  have enq: "dlist_enqueue h (root\<lparr>head := poison, tail := poison\<rparr>) d = Inl Fault"
    if "h poison = None"
    using that poison_nonnull
    by (auto simp: dlist_enqueue_def exec_simps split: option.splits)
  have pb: "dlist_pushback h (root\<lparr>head := poison, tail := poison\<rparr>) d = Inl Fault"
    if "h poison = None"
    using that poison_nonnull
    by (auto simp: dlist_pushback_def exec_simps split: option.splits)
  have pop: "dlist_pop h (root\<lparr>head := poison, tail := poison\<rparr>) = Inl Fault"
    if "h poison = None"
    using that poison_nonnull by (simp add: dlist_pop_def exec_simps)
  have deq: "dlist_dequeue h (root\<lparr>head := poison, tail := poison\<rparr>) = Inl Fault"
    if "h poison = None"
    using that poison_nonnull by (simp add: dlist_dequeue_def exec_simps)
  have chk: "dlist_check h (root\<lparr>head := poison, tail := poison\<rparr>) = Some (Inl Fault)"
    if "h poison = None"
    using that poison_nonnull
    by (simp add: dlist_check_def check_loop.simps [of h poison NULL] load_def)
  show ?thesis
    using odd enq pb pop deq chk poison_nonnull
    by (simp add: dlist_destroy_def dlist_init_empty)
qed

theorem destroy_panics_or_poisons_witness:
  "dlist_destroy \<lparr>head = 8, tail = 8\<rparr> = Inl Panic \<and>
   dlist_destroy (dlist_init root0) = Inr \<lparr>head = 0xdeadbeef, tail = 0xdeadbeef\<rparr> \<and>
   2 dvd unat (8 :: ptr) \<and> (8 :: ptr) \<noteq> 0xdeadbeef \<and>
   alloc_heap [8] 0xdeadbeef = None \<and>
   dlist_enqueue (alloc_heap [8]) \<lparr>head = 0xdeadbeef, tail = 0xdeadbeef\<rparr> 8 = Inl Fault \<and>
   dlist_pop (alloc_heap [8]) \<lparr>head = 0xdeadbeef, tail = 0xdeadbeef\<rparr> = Inl Fault \<and>
   dlist_check (alloc_heap [8]) \<lparr>head = 0xdeadbeef, tail = 0xdeadbeef\<rparr> = Some (Inl Fault) \<and>
   dlist_destroy \<lparr>head = 0xdeadbeef, tail = 0xdeadbeef\<rparr> = Inl Panic"
proof -
  have e: "2 dvd unat (8 :: ptr)"
    by simp
  have n: "alloc_heap [8] poison = None"
    by (simp add: alloc_heap_def poison_def)
  note w1 = destroy_panics_or_poisons [of "\<lparr>head = 8, tail = 8\<rparr>" "alloc_heap [8]" 8]
  note w2 = destroy_panics_or_poisons [of "dlist_init root0" "alloc_heap [8]" 8]
  from w2 e have "(8 :: ptr) \<noteq> poison"
    by (simp add: dlist_init_def)
  with w1 w2 e n show ?thesis
    by (simp add: dlist_init_def root0_def poison_def)
qed

text \<open>
  Claim C2. On an empty list \<^verbatim>\<open>dlist_pop\<close>, \<^verbatim>\<open>dlist_dequeue\<close>, \<^verbatim>\<open>dlist_head\<close> and
  \<^verbatim>\<open>dlist_tail\<close> return null, and so does the typed \<^verbatim>\<open>pop\<close> of a record type whose link
  field is its first member. The typed functions pass the result through
  \<^verbatim>\<open>GET_CONTAINER\<close>, which subtracts the offset of the link field without looking at
  the pointer: for a record type whose link field lies 8 bytes into the record, the typed
  \<^verbatim>\<open>pop\<close>, \<^verbatim>\<open>dequeue\<close>, \<^verbatim>\<open>head\<close> and \<^verbatim>\<open>tail\<close> on the empty list return the address
  \<open>0 - 8\<close>, which is not null.
\<close>

theorem typed_removal_on_empty_offset8:
  "dlist_pop h (dlist_init root) = Inr (h, dlist_init root, NULL) \<and>
   dlist_dequeue h (dlist_init root) = Inr (h, dlist_init root, NULL) \<and>
   dlist_head (dlist_init root) = NULL \<and> dlist_tail (dlist_init root) = NULL \<and>
   dlist_type_pop 0 h (dlist_init root) = Inr (h, dlist_init root, NULL) \<and>
   dlist_type_pop 8 h (dlist_init root) = Inr (h, dlist_init root, 0xFFFFFFFFFFFFFFF8) \<and>
   dlist_type_dequeue 8 h (dlist_init root) = Inr (h, dlist_init root, 0xFFFFFFFFFFFFFFF8) \<and>
   dlist_type_head 8 (dlist_init root) = 0xFFFFFFFFFFFFFFF8 \<and>
   dlist_type_tail 8 (dlist_init root) = 0xFFFFFFFFFFFFFFF8 \<and>
   (0xFFFFFFFFFFFFFFF8 :: ptr) \<noteq> NULL"
  by (simp add: dlist_type_pop_def dlist_type_dequeue_def dlist_type_head_def
      dlist_type_tail_def dlist_pop_def dlist_dequeue_def dlist_head_def dlist_tail_def
      dlist_init_def GET_CONTAINER_def)

section \<open>Typed operations and runs\<close>

lemma GET_CONTAINER_member: "GET_CONTAINER (member_addr r off) off = r"
  by (simp add: GET_CONTAINER_def member_addr_def)

lemma member_addr_eq: "(member_addr r off = member_addr s off) = (r = s)"
  by (simp add: member_addr_def)

lemma map_remove1_member:
  "map (\<lambda>r. member_addr r off) (remove1 r rs) =
   remove1 (member_addr r off) (map (\<lambda>r. member_addr r off) rs)"
  by (induction rs) (auto simp: member_addr_eq)

lemma tlist_distinct: "tlist off h root rs \<Longrightarrow> distinct rs"
  by (auto simp: tlist_def dlist_def distinct_map)

lemma tlist_Nil: "tlist off h root [] = (head root = NULL \<and> tail root = NULL)"
  by (simp add: tlist_def dlist_Nil)

lemma tlist_ends:
  assumes "tlist off h root rs"
  shows "dlist_type_head off root = (if rs = [] then GET_CONTAINER NULL off else hd rs)"
    and "dlist_type_tail off root = (if rs = [] then GET_CONTAINER NULL off else last rs)"
    and "(head root = NULL) = (rs = [])" and "(tail root = NULL) = (rs = [])"
proof -
  let ?xs = "map (\<lambda>r. member_addr r off) rs"
  from assms have d: "dlist h root ?xs" by (simp add: tlist_def)
  show "dlist_type_head off root = (if rs = [] then GET_CONTAINER NULL off else hd rs)"
    using d by (auto simp: dlist_def dlist_type_head_def dlist_head_def hd_map
        GET_CONTAINER_member)
  show "dlist_type_tail off root = (if rs = [] then GET_CONTAINER NULL off else last rs)"
    using d by (auto simp: dlist_def dlist_type_tail_def dlist_tail_def last_map
        GET_CONTAINER_member)
  show "(head root = NULL) = (rs = [])"
    using d dlist_hd(1,2) [OF d] by (cases "rs = []") (auto simp: dlist_Nil)
  show "(tail root = NULL) = (rs = [])"
    using d dlist_last(1,2) [OF d] by (cases "rs = []") (auto simp: dlist_Nil)
qed

lemma step_correct:
  assumes "tlist off h root rs" "ok_op off h rs x"
  shows "\<exists>h' root'. step off (h, root, outs) x = Inr (h', root', outs @ abs_out off rs x) \<and>
           tlist off h' root' (abs_step rs x) \<and>
           (\<forall>p. (h' p = None) = (h p = None))"
proof -
  let ?m = "\<lambda>r. member_addr r off"
  from assms(1) have d: "dlist h root (map ?m rs)" by (simp add: tlist_def)
  show ?thesis
  proof (cases x)
    case (Enqueue r)
    with assms(2) have "?m r \<noteq> NULL" "h (?m r) \<noteq> None" "?m r \<notin> set (map ?m rs)"
      by (auto simp: insertable_def member_addr_eq)
    from enqueue_correct [OF d this] Enqueue show ?thesis
      by (auto simp: dlist_type_enqueue_def tlist_def bindE_def)
  next
    case (Push r)
    with assms(2) have "?m r \<noteq> NULL" "h (?m r) \<noteq> None" "?m r \<notin> set (map ?m rs)"
      by (auto simp: insertable_def member_addr_eq)
    from enqueue_correct [OF d this] Push show ?thesis
      by (auto simp: dlist_type_push_def dlist_push_def tlist_def bindE_def)
  next
    case (Pushback r)
    with assms(2) have "?m r \<noteq> NULL" "h (?m r) \<noteq> None" "?m r \<notin> set (map ?m rs)"
      by (auto simp: insertable_def member_addr_eq)
    from pushback_correct [OF d this] Pushback show ?thesis
      by (auto simp: dlist_type_pushback_def tlist_def bindE_def)
  next
    case Pop
    from pop_correct [OF d] Pop show ?thesis
      by (auto simp: dlist_type_pop_def tlist_def bindE_def map_tl hd_map GET_CONTAINER_member)
  next
    case Dequeue
    from dequeue_correct [OF d] Dequeue show ?thesis
      by (auto simp: dlist_type_dequeue_def tlist_def bindE_def map_butlast last_map
          GET_CONTAINER_member)
  next
    case (Remove r)
    with assms(2) have "?m r \<in> set (map ?m rs)" by simp
    from remove_correct [OF d this] Remove show ?thesis
      by (auto simp: dlist_type_remove_def tlist_def bindE_def map_remove1_member)
  qed
qed

lemma ok_op_cong: "(\<forall>p. (h' p = None) = (h p = None)) \<Longrightarrow> ok_op off h' rs x = ok_op off h rs x"
  by (cases x) (simp_all add: insertable_def)

lemma valid_ops_cong:
  assumes "\<forall>p. (h' p = None) = (h p = None)"
  shows "valid_ops off h' rs ops = valid_ops off h rs ops"
proof (induction ops arbitrary: rs)
  case Nil
  show ?case by simp
next
  case (Cons x ops)
  show ?case
    using ok_op_cong [OF assms, of off rs x] Cons.IH by simp
qed

lemma run_correct:
  assumes "tlist off h root rs" "valid_ops off h rs ops"
  shows "\<exists>h' root'. run off (h, root, outs) ops = Inr (h', root', outs @ abs_outs off rs ops) \<and>
           tlist off h' root' (abs_run rs ops) \<and>
           (\<forall>p. (h' p = None) = (h p = None))"
  using assms
proof (induction ops arbitrary: h root rs outs)
  case Nil
  then show ?case by simp
next
  case (Cons x ops)
  from Cons.prems have ok: "ok_op off h rs x" and v: "valid_ops off h (abs_step rs x) ops"
    by simp_all
  from step_correct [OF Cons.prems(1) ok, of outs] obtain h1 root1 where
    s: "step off (h, root, outs) x = Inr (h1, root1, outs @ abs_out off rs x)" and
    t: "tlist off h1 root1 (abs_step rs x)" and
    a: "\<forall>p. (h1 p = None) = (h p = None)"
    by blast
  from v valid_ops_cong [OF a] have "valid_ops off h1 (abs_step rs x) ops"
    by simp
  from Cons.IH [OF t this, of "outs @ abs_out off rs x"] s a show ?case
    by (auto simp: bindE_def)
qed

lemma valid_ops_append:
  "valid_ops off h rs (ops @ ops') =
     (valid_ops off h rs ops \<and> valid_ops off h (abs_run rs ops) ops')"
  by (induction ops arbitrary: rs) auto

lemma abs_run_append: "abs_run rs (ops @ ops') = abs_run (abs_run rs ops) ops'"
  by (induction ops arbitrary: rs) auto

lemma abs_outs_append:
  "abs_outs off rs (ops @ ops') = abs_outs off rs ops @ abs_outs off (abs_run rs ops) ops'"
  by (induction ops arbitrary: rs) auto

lemma valid_ops_take: "valid_ops off h rs ops \<Longrightarrow> valid_ops off h rs (take n ops)"
  by (metis append_take_drop_id valid_ops_append)

section \<open>Insertion and removal\<close>

text \<open>
  Claim C5. On a list \<open>xs\<close>, \<^verbatim>\<open>dlist_enqueue\<close> of a node that is allocated, not null and
  not in the list returns normally with the list \<open>d # xs\<close>: the node is the new head, the
  tail is the node if the list was empty and the old tail otherwise. \<^verbatim>\<open>dlist_pushback\<close>
  gives \<open>xs @ [d]\<close>: the node is the new tail, the head is the node if the list was empty
  and the old head otherwise. The nodes of \<open>xs\<close> keep their order.
\<close>

theorem insert_front_and_back:
  assumes "dlist h root xs" "d \<noteq> NULL" "h d \<noteq> None" "d \<notin> set xs"
  shows "(\<exists>h' root'. dlist_enqueue h root d = Inr (h', root') \<and> dlist h' root' (d # xs) \<and>
            head root' = d \<and> tail root' = (if xs = [] then d else tail root)) \<and>
         (\<exists>h' root'. dlist_pushback h root d = Inr (h', root') \<and> dlist h' root' (xs @ [d]) \<and>
            tail root' = d \<and> head root' = (if xs = [] then d else head root))"
proof -
  from enqueue_correct [OF assms] obtain h1 root1 where
    e: "dlist_enqueue h root d = Inr (h1, root1)" "dlist h1 root1 (d # xs)"
    by blast
  from pushback_correct [OF assms] obtain h2 root2 where
    p: "dlist_pushback h root d = Inr (h2, root2)" "dlist h2 root2 (xs @ [d])"
    by blast
  from e(2) assms(1) have "head root1 = d" "tail root1 = (if xs = [] then d else tail root)"
    by (simp_all add: dlist_def)
  moreover from p(2) assms(1) have "tail root2 = d" "head root2 = (if xs = [] then d else head root)"
    by (simp_all add: dlist_def)
  ultimately show ?thesis using e p by simp
qed

theorem insert_front_and_back_witness:
  "dlist two_heap two_root [8, 16] \<and>
   (\<exists>h' root'. dlist_enqueue two_heap two_root 24 = Inr (h', root') \<and>
      dlist h' root' [24, 8, 16] \<and> head root' = 24 \<and> tail root' = 16) \<and>
   (\<exists>h' root'. dlist_pushback two_heap two_root 24 = Inr (h', root') \<and>
      dlist h' root' [8, 16, 24] \<and> tail root' = 24 \<and> head root' = 8)"
proof -
  have "dlist two_heap two_root [8, 16]" "(24 :: ptr) \<noteq> NULL" "two_heap 24 \<noteq> None"
    "(24 :: ptr) \<notin> set [8, 16]"
    by (simp_all add: dlist_def two_heap_def two_root_def alloc_heap_def)
  from this insert_front_and_back [OF this] show ?thesis
    by (simp add: two_root_def)
qed

text \<open>
  Claim C10. \<^verbatim>\<open>dlist_pop\<close>, \<^verbatim>\<open>dlist_dequeue\<close> and \<^verbatim>\<open>dlist_remove\<close> of a member leave the
  two fields of the removed node as they were. The only nodes they write are the removed
  node's neighbours. After a pop from a list of two or more nodes, the \<^verbatim>\<open>next\<close> field of
  the returned node still holds the address of the new head, which is in the list; after a
  dequeue its \<^verbatim>\<open>prev\<close> field still holds the address of the new tail.
\<close>

theorem removal_keeps_removed_node:
  assumes "dlist h root xs"
  shows "(xs \<noteq> [] \<longrightarrow>
            (\<exists>h' root'. dlist_pop h root = Inr (h', root', hd xs) \<and>
               dlist h' root' (tl xs) \<and> h' (hd xs) = h (hd xs) \<and>
               (\<forall>p. p \<noteq> next (the (h (hd xs))) \<longrightarrow> h' p = h p) \<and>
               (tl xs \<noteq> [] \<longrightarrow> next (the (h' (hd xs))) = head root'))) \<and>
         (xs \<noteq> [] \<longrightarrow>
            (\<exists>h' root'. dlist_dequeue h root = Inr (h', root', last xs) \<and>
               dlist h' root' (butlast xs) \<and> h' (last xs) = h (last xs) \<and>
               (\<forall>p. p \<noteq> prev (the (h (last xs))) \<longrightarrow> h' p = h p) \<and>
               (butlast xs \<noteq> [] \<longrightarrow> prev (the (h' (last xs))) = tail root'))) \<and>
         (\<forall>d \<in> set xs.
            (\<exists>h' root'. dlist_remove h root d = Inr (h', root') \<and>
               dlist h' root' (remove1 d xs) \<and> h' d = h d \<and>
               (\<forall>p. p \<noteq> prev (the (h d)) \<longrightarrow> p \<noteq> next (the (h d)) \<longrightarrow> h' p = h p)))"
proof (intro conjI impI ballI)
  assume ne: "xs \<noteq> []"
  note hd = dlist_hd [OF assms ne]
  from pop_correct [OF assms] ne obtain h' root' where
    r: "dlist_pop h root = Inr (h', root', hd xs)" "dlist h' root' (tl xs)"
      "\<forall>p. p \<noteq> head root' \<longrightarrow> h' p = h p"
    by (auto simp: hd(1))
  from r(2) hd(5) have nx: "next (the (h (hd xs))) = head root'"
    by (simp add: dlist_def)
  from assms ne have "hd xs \<notin> set (tl xs)"
    by (cases xs) (simp_all add: dlist_def)
  with r(2) hd(2) have "hd xs \<noteq> head root'"
    by (cases "tl xs = []") (auto simp: dlist_def)
  with r nx show "\<exists>h' root'. dlist_pop h root = Inr (h', root', hd xs) \<and>
      dlist h' root' (tl xs) \<and> h' (hd xs) = h (hd xs) \<and>
      (\<forall>p. p \<noteq> next (the (h (hd xs))) \<longrightarrow> h' p = h p) \<and>
      (tl xs \<noteq> [] \<longrightarrow> next (the (h' (hd xs))) = head root')"
    by auto
next
  assume ne: "xs \<noteq> []"
  note lst = dlist_last [OF assms ne]
  from dequeue_correct [OF assms] ne obtain h' root' where
    r: "dlist_dequeue h root = Inr (h', root', last xs)" "dlist h' root' (butlast xs)"
      "\<forall>p. p \<noteq> tail root' \<longrightarrow> h' p = h p"
    by (auto simp: lst(1))
  from r(2) lst(5) have pv: "prev (the (h (last xs))) = tail root'"
    by (simp add: dlist_def)
  from assms ne have "last xs \<notin> set (butlast xs)"
    by (cases xs rule: rev_cases) (simp_all add: dlist_def)
  with r(2) lst(2) have "last xs \<noteq> tail root'"
    by (cases "butlast xs = []") (auto simp: dlist_def)
  with r pv show "\<exists>h' root'. dlist_dequeue h root = Inr (h', root', last xs) \<and>
      dlist h' root' (butlast xs) \<and> h' (last xs) = h (last xs) \<and>
      (\<forall>p. p \<noteq> prev (the (h (last xs))) \<longrightarrow> h' p = h p) \<and>
      (butlast xs \<noteq> [] \<longrightarrow> prev (the (h' (last xs))) = tail root')"
    by auto
next
  fix d
  assume "d \<in> set xs"
  from remove_correct [OF assms this]
  show "\<exists>h' root'. dlist_remove h root d = Inr (h', root') \<and>
      dlist h' root' (remove1 d xs) \<and> h' d = h d \<and>
      (\<forall>p. p \<noteq> prev (the (h d)) \<longrightarrow> p \<noteq> next (the (h d)) \<longrightarrow> h' p = h p)"
    by blast
qed

theorem removal_keeps_removed_node_witness:
  "dlist two_heap two_root [8, 16] \<and>
   (\<exists>h' root'. dlist_pop two_heap two_root = Inr (h', root', 8) \<and>
      h' 8 = Some \<lparr>next = 16, prev = NULL\<rparr> \<and> dlist h' root' [16] \<and> head root' = 16) \<and>
   (\<exists>h' root'. dlist_dequeue two_heap two_root = Inr (h', root', 16) \<and>
      h' 16 = Some \<lparr>next = NULL, prev = 8\<rparr> \<and> dlist h' root' [8] \<and> tail root' = 8) \<and>
   (\<exists>h' root'. dlist_remove two_heap two_root 16 = Inr (h', root') \<and>
      h' 16 = Some \<lparr>next = NULL, prev = 8\<rparr> \<and> dlist h' root' [8])"
proof -
  have l: "dlist two_heap two_root [8, 16]"
    by (simp add: dlist_def two_heap_def two_root_def)
  have v: "two_heap 8 = Some \<lparr>next = 16, prev = NULL\<rparr>"
    "two_heap 16 = Some \<lparr>next = NULL, prev = 8\<rparr>"
    by (simp_all add: two_heap_def)
  from removal_keeps_removed_node [OF l] l v show ?thesis
    by (auto simp: dlist_def)
qed

section \<open>The empty-list invariant along a run\<close>

text \<open>
  Claim C4. Take any sequence of \<^verbatim>\<open>enqueue\<close>, \<^verbatim>\<open>pushback\<close>, \<^verbatim>\<open>push\<close>, \<^verbatim>\<open>pop\<close>,
  \<^verbatim>\<open>dequeue\<close> and \<^verbatim>\<open>remove\<close> calls on a handle that \<^verbatim>\<open>dlist_init\<close> has set up, in which
  every inserted record is allocated and not in the list and every removed record is in
  the list. After each call (after every prefix of the sequence) the run has returned
  normally, the heap and the handle represent the list that the calls describe, and the
  handle's \<^verbatim>\<open>head\<close> is null exactly when its \<^verbatim>\<open>tail\<close> is null, exactly when that list has
  no node.
\<close>

theorem head_tail_null_together:
  assumes "valid_ops off h [] ops" "n \<le> length ops"
  shows "\<exists>h' root' outs.
           run off (h, dlist_init root, []) (take n ops) = Inr (h', root', outs) \<and>
           tlist off h' root' (abs_run [] (take n ops)) \<and>
           ((head root' = NULL) = (tail root' = NULL)) \<and>
           ((head root' = NULL) = (abs_run [] (take n ops) = []))"
proof -
  have t: "tlist off h (dlist_init root) []"
    by (simp add: tlist_def dlist_init_empty)
  from assms(1) have v: "valid_ops off h [] (take n ops)"
    by (rule valid_ops_take)
  from run_correct [OF t v, of "[]"] obtain h' root' where
    r: "run off (h, dlist_init root, []) (take n ops) =
          Inr (h', root', [] @ abs_outs off [] (take n ops))"
      "tlist off h' root' (abs_run [] (take n ops))"
    by blast
  from tlist_ends(3,4) [OF r(2)] r show ?thesis
    by auto
qed

theorem head_tail_null_together_witness:
  "valid_ops 0 (alloc_heap [8, 16]) [] [Enqueue 8, Pushback 16, Pop, Remove 16, Dequeue] \<and>
   (\<exists>h' root' outs.
      run 0 (alloc_heap [8, 16], dlist_init root0, []) [Enqueue 8, Pushback 16, Pop] =
        Inr (h', root', outs) \<and>
      tlist 0 h' root' [16] \<and> head root' \<noteq> NULL \<and> tail root' \<noteq> NULL) \<and>
   (\<exists>h' root' outs.
      run 0 (alloc_heap [8, 16], dlist_init root0, [])
        [Enqueue 8, Pushback 16, Pop, Remove 16] = Inr (h', root', outs) \<and>
      tlist 0 h' root' [] \<and> head root' = NULL \<and> tail root' = NULL)"
proof -
  have v: "valid_ops 0 (alloc_heap [8, 16]) [] [Enqueue 8, Pushback 16, Pop, Remove 16, Dequeue]"
    by (simp add: insertable_def member_addr_def alloc_heap_def)
  have l: "(3 :: nat) \<le> length [Enqueue 8, Pushback 16, Pop, Remove 16, Dequeue]"
    "(4 :: nat) \<le> length [Enqueue 8, Pushback 16, Pop, Remove 16, Dequeue]"
    by simp_all
  have t: "take 3 [Enqueue 8, Pushback 16, Pop, Remove 16, Dequeue] =
             [Enqueue 8, Pushback 16, Pop]"
    "take 4 [Enqueue 8, Pushback 16, Pop, Remove 16, Dequeue] =
       [Enqueue 8, Pushback 16, Pop, Remove 16]"
    by (simp_all add: take_Cons')
  have a: "abs_run [] [Enqueue 8, Pushback 16, Pop] = [16]"
    "abs_run [] [Enqueue 8, Pushback 16, Pop, Remove 16] = []"
    by simp_all
  note w3 = head_tail_null_together [OF v l(1), of root0, unfolded t a]
  note w4 = head_tail_null_together [OF v l(2), of root0, unfolded t a]
  from w3 have "\<exists>h' root' outs.
      run 0 (alloc_heap [8, 16], dlist_init root0, []) [Enqueue 8, Pushback 16, Pop] =
        Inr (h', root', outs) \<and>
      tlist 0 h' root' [16] \<and> head root' \<noteq> NULL \<and> tail root' \<noteq> NULL"
    by (auto simp del: run.simps)
  moreover from w4 have "\<exists>h' root' outs.
      run 0 (alloc_heap [8, 16], dlist_init root0, [])
        [Enqueue 8, Pushback 16, Pop, Remove 16] = Inr (h', root', outs) \<and>
      tlist 0 h' root' [] \<and> head root' = NULL \<and> tail root' = NULL"
    by (auto simp del: run.simps)
  ultimately show ?thesis using v by blast
qed

section \<open>The loops: folds and check\<close>

lemma foldr_loop_dseg:
  "dseg h p xs NULL \<Longrightarrow>
   foldr_loop off h f (if xs = [] then NULL else hd xs) a vis =
     Some (Inr (fold_spec f (map (\<lambda>x. GET_CONTAINER x off) xs) a vis))"
proof (induction xs arbitrary: p a vis)
  case Nil
  show ?case by (simp add: foldr_loop.simps)
next
  case (Cons x xs)
  from Cons.prems have x: "x \<noteq> NULL" "h x \<noteq> None"
    "next (the (h x)) = (if xs = [] then NULL else hd xs)" "dseg h x xs NULL"
    by simp_all
  from x(1,2) have ld: "load h x = Inr (the (h x))"
    by (auto simp: load_def)
  show ?case
    using x(1) ld x(3) Cons.IH [OF x(4)]
    by (subst foldr_loop.simps) (simp add: split_beta)
qed

lemma foldl_loop_dseg:
  "dseg h NULL xs q \<Longrightarrow>
   foldl_loop off h f (if xs = [] then NULL else last xs) a vis =
     Some (Inr (fold_spec f (map (\<lambda>x. GET_CONTAINER x off) (rev xs)) a vis))"
proof (induction xs arbitrary: q a vis rule: rev_induct)
  case Nil
  show ?case by (simp add: foldl_loop.simps)
next
  case (snoc x xs)
  from snoc.prems have x: "x \<noteq> NULL" "h x \<noteq> None"
    "prev (the (h x)) = (if xs = [] then NULL else last xs)" "dseg h NULL xs x"
    by (simp_all add: dseg_snoc)
  from x(1,2) have ld: "load h x = Inr (the (h x))"
    by (auto simp: load_def)
  show ?case
    using x(1) ld x(3) snoc.IH [OF x(4)]
    by (subst foldl_loop.simps) (simp add: split_beta)
qed

lemma check_loop_dseg:
  "dseg h lp xs NULL \<Longrightarrow>
   (lp \<noteq> NULL \<longrightarrow> h lp \<noteq> None \<and> next (the (h lp)) = (if xs = [] then NULL else hd xs)) \<Longrightarrow>
   check_loop h (if xs = [] then NULL else hd xs) lp =
     Some (Inr (if xs = [] then lp else last xs))"
proof (induction xs arbitrary: lp)
  case Nil
  show ?case by (simp add: check_loop.simps)
next
  case (Cons x xs)
  from Cons.prems(1) have x: "x \<noteq> NULL" "h x \<noteq> None" "prev (the (h x)) = lp"
    "next (the (h x)) = (if xs = [] then NULL else hd xs)" "dseg h x xs NULL"
    by simp_all
  from x(1,2) have ld: "load h x = Inr (the (h x))"
    by (auto simp: load_def)
  have ll: "load h lp = Inr (the (h lp))" "next (the (h lp)) = x" if "lp \<noteq> NULL"
    using that Cons.prems(2) by (auto simp: load_def)
  have IH: "check_loop h (if xs = [] then NULL else hd xs) x =
      Some (Inr (if xs = [] then x else last xs))"
    using x by (intro Cons.IH) simp_all
  show ?case
    using x(1,3,4) ld ll IH
    by (subst check_loop.simps) (cases "lp = NULL"; simp)
qed

lemma dlist_check_ok: "dlist h root xs \<Longrightarrow> dlist_check h root = Some (Inr ())"
  using check_loop_dseg [of h NULL xs]
  by (simp add: dlist_def dlist_check_def)

lemma tlist_foldr:
  "tlist off h root rs \<Longrightarrow>
   dlist_type_foldr off h root f a = Some (Inr (fold_spec f rs a []))"
  using foldr_loop_dseg [of h NULL "map (\<lambda>r. member_addr r off) rs" off f a "[]"]
  by (simp add: tlist_def dlist_def dlist_type_foldr_def comp_def GET_CONTAINER_member)

lemma tlist_foldl:
  "tlist off h root rs \<Longrightarrow>
   dlist_type_foldl off h root f a = Some (Inr (fold_spec f (rev rs) a []))"
  using foldl_loop_dseg [of h "map (\<lambda>r. member_addr r off) rs" NULL off f a "[]"]
  by (simp add: tlist_def dlist_def dlist_type_foldl_def comp_def GET_CONTAINER_member rev_map)

lemma accs_0: "accs f rs a 0 = a"
  by (simp add: accs_def)

lemma accs_Cons_Suc: "accs f (r # rs) a (Suc k) = accs f rs (fst (f r a)) k"
  by (simp add: accs_def)

lemma sets_flag_Cons_0: "sets_flag f (r # rs) a 0 = snd (f r a)"
  by (simp add: sets_flag_def accs_def)

lemma sets_flag_Cons_Suc: "sets_flag f (r # rs) a (Suc j) = sets_flag f rs (fst (f r a)) j"
  by (simp add: sets_flag_def accs_def)

lemma fold_spec_stops:
  "k < length rs \<Longrightarrow> sets_flag f rs a k \<Longrightarrow> (\<forall>j<k. \<not> sets_flag f rs a j) \<Longrightarrow>
   fold_spec f rs a vis = (accs f rs a (Suc k), vis @ take (Suc k) rs)"
proof (induction rs arbitrary: k a vis)
  case Nil
  then show ?case by simp
next
  case (Cons r rs)
  show ?case
  proof (cases k)
    case 0
    with Cons.prems show ?thesis
      by (simp add: sets_flag_Cons_0 accs_Cons_Suc accs_0)
  next
    case (Suc k')
    from Cons.prems(3) Suc have n0: "\<not> snd (f r a)"
      using sets_flag_Cons_0 [of f r rs a] by auto
    from Cons.prems Suc have "k' < length rs" "sets_flag f rs (fst (f r a)) k'"
      "\<forall>j<k'. \<not> sets_flag f rs (fst (f r a)) j"
      using sets_flag_Cons_Suc [of f r rs a] by auto
    from Cons.IH [OF this, of "vis @ [r]"] n0 Suc show ?thesis
      by (simp add: accs_Cons_Suc)
  qed
qed

lemma fold_spec_all:
  "(\<forall>j<length rs. \<not> sets_flag f rs a j) \<Longrightarrow>
   fold_spec f rs a vis = (accs f rs a (length rs), vis @ rs)"
proof (induction rs arbitrary: a vis)
  case Nil
  show ?case by (simp add: accs_0)
next
  case (Cons r rs)
  from Cons.prems have n0: "\<not> snd (f r a)"
    using sets_flag_Cons_0 [of f r rs a] by auto
  from Cons.prems have "\<forall>j<length rs. \<not> sets_flag f rs (fst (f r a)) j"
    using sets_flag_Cons_Suc [of f r rs a] by auto
  from Cons.IH [OF this, of "vis @ [r]"] n0 show ?case
    by (simp add: accs_Cons_Suc)
qed

section \<open>Early termination of the folds\<close>

lemma dseg_nth:
  "dseg h p xs q \<Longrightarrow> Suc i < length xs \<Longrightarrow>
   next (the (h (xs ! i))) = xs ! Suc i \<and> prev (the (h (xs ! Suc i))) = xs ! i"
proof (induction xs arbitrary: p i)
  case Nil
  then show ?case by simp
next
  case (Cons x xs)
  show ?case
  proof (cases i)
    case 0
    with Cons.prems show ?thesis by (cases xs) simp_all
  next
    case (Suc j)
    with Cons.prems have "dseg h x xs q" "Suc j < length xs" by simp_all
    from Cons.IH [OF this] Suc show ?thesis by simp
  qed
qed

text \<open>
  Claim C6. On a list of the records \<open>rs\<close>, let a reducer set the flag at its \<open>k\<close>-th
  call and not before, with \<open>1 \<le> k \<le> length rs\<close>. Then \<^verbatim>\<open>foldr\<close> returns, its log holds
  exactly the first \<open>k\<close> records from the head, so the reducer ran \<open>k\<close> times, and the
  result is the accumulator of the \<open>k\<close>-th call. \<^verbatim>\<open>foldl\<close> does the same on the reversed
  list, from the tail. A reducer that sets the flag at none of its calls runs once on
  each of the \<open>length rs\<close> records.
\<close>

theorem fold_stops_at_flag:
  assumes "tlist off h root rs"
  shows "(0 < k \<and> k \<le> length rs \<and> sets_flag f rs a (k - 1) \<and>
            (\<forall>j<k - 1. \<not> sets_flag f rs a j) \<longrightarrow>
          (\<exists>vis. dlist_type_foldr off h root f a = Some (Inr (accs f rs a k, vis)) \<and>
             vis = take k rs \<and> length vis = k)) \<and>
         (0 < k \<and> k \<le> length rs \<and> sets_flag f (rev rs) a (k - 1) \<and>
            (\<forall>j<k - 1. \<not> sets_flag f (rev rs) a j) \<longrightarrow>
          (\<exists>vis. dlist_type_foldl off h root f a = Some (Inr (accs f (rev rs) a k, vis)) \<and>
             vis = take k (rev rs) \<and> length vis = k)) \<and>
         ((\<forall>j<length rs. \<not> sets_flag f rs a j) \<longrightarrow>
          (\<exists>vis. dlist_type_foldr off h root f a =
                   Some (Inr (accs f rs a (length rs), vis)) \<and>
             vis = rs \<and> length vis = length rs)) \<and>
         ((\<forall>j<length rs. \<not> sets_flag f (rev rs) a j) \<longrightarrow>
          (\<exists>vis. dlist_type_foldl off h root f a =
                   Some (Inr (accs f (rev rs) a (length rs), vis)) \<and>
             vis = rev rs \<and> length vis = length rs))"
proof (intro conjI impI)
  assume k: "0 < k \<and> k \<le> length rs \<and> sets_flag f rs a (k - 1) \<and>
    (\<forall>j<k - 1. \<not> sets_flag f rs a j)"
  then have "k - 1 < length rs" "Suc (k - 1) = k" by auto
  with k fold_spec_stops [of "k - 1" rs f a "[]"]
  show "\<exists>vis. dlist_type_foldr off h root f a = Some (Inr (accs f rs a k, vis)) \<and>
      vis = take k rs \<and> length vis = k"
    by (simp add: tlist_foldr [OF assms])
next
  assume k: "0 < k \<and> k \<le> length rs \<and> sets_flag f (rev rs) a (k - 1) \<and>
    (\<forall>j<k - 1. \<not> sets_flag f (rev rs) a j)"
  then have "k - 1 < length (rev rs)" "Suc (k - 1) = k" by auto
  with k fold_spec_stops [of "k - 1" "rev rs" f a "[]"]
  show "\<exists>vis. dlist_type_foldl off h root f a = Some (Inr (accs f (rev rs) a k, vis)) \<and>
      vis = take k (rev rs) \<and> length vis = k"
    by (simp add: tlist_foldl [OF assms])
next
  assume "\<forall>j<length rs. \<not> sets_flag f rs a j"
  with fold_spec_all [of rs f a "[]"]
  show "\<exists>vis. dlist_type_foldr off h root f a = Some (Inr (accs f rs a (length rs), vis)) \<and>
      vis = rs \<and> length vis = length rs"
    by (simp add: tlist_foldr [OF assms])
next
  assume "\<forall>j<length rs. \<not> sets_flag f (rev rs) a j"
  with fold_spec_all [of "rev rs" f a "[]"]
  show "\<exists>vis. dlist_type_foldl off h root f a =
       Some (Inr (accs f (rev rs) a (length rs), vis)) \<and>
      vis = rev rs \<and> length vis = length rs"
    by (simp add: tlist_foldl [OF assms])
qed

text \<open>Two reducers: the first looks for the record at 8, the second counts.\<close>

theorem fold_stops_at_flag_witness:
  "tlist 0 two_heap two_root [8, 16] \<and>
   dlist_type_foldr 0 two_heap two_root (\<lambda>r b. (r, r = 8)) 0 = Some (Inr (8, [8])) \<and>
   dlist_type_foldl 0 two_heap two_root (\<lambda>r b. (r, r = 8)) 0 = Some (Inr (8, [16, 8])) \<and>
   dlist_type_foldr 0 two_heap two_root (\<lambda>r b. (b + 1, False)) (0 :: nat) =
     Some (Inr (2, [8, 16])) \<and>
   dlist_type_foldl 0 two_heap two_root (\<lambda>r b. (b + 1, False)) (0 :: nat) =
     Some (Inr (2, [16, 8]))"
proof -
  have t: "tlist 0 two_heap two_root [8, 16]"
    by (simp add: tlist_def dlist_def member_addr_def two_heap_def two_root_def)
  from fold_stops_at_flag [OF t, of 1 "\<lambda>r b. (r, r = 8)" 0]
  have 1: "dlist_type_foldr 0 two_heap two_root (\<lambda>r b. (r, r = 8)) 0 = Some (Inr (8, [8]))"
    by (simp add: sets_flag_def accs_def)
  from fold_stops_at_flag [OF t, of 2 "\<lambda>r b. (r, r = 8)" 0]
  have 2: "dlist_type_foldl 0 two_heap two_root (\<lambda>r b. (r, r = 8)) 0 =
      Some (Inr (8, [16, 8]))"
    by (simp add: sets_flag_def accs_def)
  from fold_stops_at_flag [OF t, of 0 "\<lambda>r b. (b + 1, False)" "0 :: nat"]
  have 3: "dlist_type_foldr 0 two_heap two_root (\<lambda>r b. (b + 1, False)) (0 :: nat) =
      Some (Inr (2, [8, 16]))"
    "dlist_type_foldl 0 two_heap two_root (\<lambda>r b. (b + 1, False)) (0 :: nat) =
      Some (Inr (2, [16, 8]))"
    by (simp_all add: sets_flag_def accs_def)
  from t 1 2 3 show ?thesis by simp
qed

section \<open>Reachable states: check and the two traversal orders\<close>

text \<open>
  Claim C9. After any sequence of public operations from \<^verbatim>\<open>dlist_init\<close> that respects
  the caller's obligations, \<^verbatim>\<open>check\<close> returns without a failed assertion and without a
  fault. In the state reached, with \<open>xs\<close> the link nodes from head to tail: the \<^verbatim>\<open>next\<close>
  of every node but the last is its successor, and the \<^verbatim>\<open>prev\<close> of that successor is the
  node again; the \<^verbatim>\<open>prev\<close> of the first node is null; the last node is the handle's
  \<^verbatim>\<open>tail\<close>; and on the empty list \<^verbatim>\<open>head\<close> and \<^verbatim>\<open>tail\<close> are both null.
\<close>

theorem check_passes_on_reachable:
  assumes "valid_ops off h [] ops"
  shows "\<exists>h' root' outs xs.
           run off (h, dlist_init root, []) ops = Inr (h', root', outs) \<and>
           dlist_type_check h' root' = Some (Inr ()) \<and>
           xs = map (\<lambda>r. member_addr r off) (abs_run [] ops) \<and>
           (\<forall>i. Suc i < length xs \<longrightarrow>
              next (the (h' (xs ! i))) = xs ! Suc i \<and>
              prev (the (h' (next (the (h' (xs ! i)))))) = xs ! i) \<and>
           (xs \<noteq> [] \<longrightarrow> head root' = hd xs \<and> prev (the (h' (hd xs))) = NULL \<and>
              tail root' = last xs) \<and>
           (xs = [] \<longrightarrow> head root' = NULL \<and> tail root' = NULL)"
proof -
  have t: "tlist off h (dlist_init root) []"
    by (simp add: tlist_def dlist_init_empty)
  from run_correct [OF t assms, of "[]"] obtain h' root' where
    r: "run off (h, dlist_init root, []) ops = Inr (h', root', [] @ abs_outs off [] ops)"
      "tlist off h' root' (abs_run [] ops)"
    by blast
  define xs where "xs = map (\<lambda>r. member_addr r off) (abs_run [] ops)"
  from r(2) have d: "dlist h' root' xs"
    by (simp add: tlist_def xs_def)
  then have seg: "dseg h' NULL xs NULL"
    by (simp add: dlist_def)
  have adj: "\<forall>i. Suc i < length xs \<longrightarrow>
      next (the (h' (xs ! i))) = xs ! Suc i \<and>
      prev (the (h' (next (the (h' (xs ! i)))))) = xs ! i"
    using dseg_nth [OF seg] by simp
  have ne: "xs \<noteq> [] \<longrightarrow> head root' = hd xs \<and> prev (the (h' (hd xs))) = NULL \<and>
      tail root' = last xs"
    using dlist_hd [OF d] dlist_last [OF d] by simp
  have em: "xs = [] \<longrightarrow> head root' = NULL \<and> tail root' = NULL"
    using d by (auto simp: dlist_Nil)
  from dlist_check_ok [OF d] have "dlist_type_check h' root' = Some (Inr ())"
    by (simp add: dlist_type_check_def)
  with r(1) adj ne em show ?thesis
    unfolding xs_def by blast
qed

theorem check_passes_on_reachable_witness:
  "valid_ops 0 (alloc_heap [8, 16, 24]) [] [Enqueue 8, Pushback 16, Push 24, Remove 8] \<and>
   (\<exists>h' root' outs.
      run 0 (alloc_heap [8, 16, 24], dlist_init root0, [])
        [Enqueue 8, Pushback 16, Push 24, Remove 8] = Inr (h', root', outs) \<and>
      dlist_type_check h' root' = Some (Inr ()) \<and>
      next (the (h' 24)) = 16 \<and> prev (the (h' 16)) = 24 \<and>
      head root' = 24 \<and> prev (the (h' 24)) = NULL \<and> tail root' = 16)"
proof -
  have v: "valid_ops 0 (alloc_heap [8, 16, 24]) [] [Enqueue 8, Pushback 16, Push 24, Remove 8]"
    by (simp add: insertable_def member_addr_def alloc_heap_def)
  have a: "map (\<lambda>r. member_addr r 0) (abs_run [] [Enqueue 8, Pushback 16, Push 24, Remove 8]) =
      [24, 16]"
    by (simp add: member_addr_def)
  from check_passes_on_reachable [OF v, of root0, unfolded a] obtain h' root' outs where
    r: "run 0 (alloc_heap [8, 16, 24], dlist_init root0, [])
          [Enqueue 8, Pushback 16, Push 24, Remove 8] = Inr (h', root', outs)"
      "dlist_type_check h' root' = Some (Inr ())"
      "\<forall>i. Suc i < length [24 :: ptr, 16] \<longrightarrow>
         next (the (h' ([24, 16] ! i))) = [24, 16] ! Suc i \<and>
         prev (the (h' (next (the (h' ([24, 16] ! i)))))) = [24, 16] ! i"
      "head root' = 24" "prev (the (h' 24)) = NULL" "tail root' = 16"
    by (auto simp del: run.simps)
  from r(3) have n: "next (the (h' 24)) = 16"
    and p: "prev (the (h' (next (the (h' 24))))) = 24"
    by (elim allE [of _ 0], simp)+
  from p have "prev (the (h' 16)) = 24"
    unfolding n .
  with n r v show ?thesis
    by (auto simp del: run.simps)
qed

text \<open>
  Claim C7. In a state reached from \<^verbatim>\<open>dlist_init\<close> by public operations whose list is not
  empty, a reducer that never sets the flag is called by \<^verbatim>\<open>foldr\<close> on the records of the
  list from the one at the head to the one at the tail, each step going to the \<^verbatim>\<open>next\<close>
  of the node before; \<^verbatim>\<open>foldl\<close> calls it on the same records from the tail to the head,
  each step going to the \<^verbatim>\<open>prev\<close>. The two logs are reverses of each other, hold the same
  records, and hold no record twice.
\<close>

theorem folds_visit_in_opposite_orders:
  assumes "valid_ops off h [] ops" "abs_run [] ops \<noteq> []" "\<forall>r b. \<not> snd (f r b)"
  shows "\<exists>h' root' outs a1 a2 vr vl.
           run off (h, dlist_init root, []) ops = Inr (h', root', outs) \<and>
           dlist_type_foldr off h' root' f a = Some (Inr (a1, vr)) \<and>
           dlist_type_foldl off h' root' f a = Some (Inr (a2, vl)) \<and>
           vr = abs_run [] ops \<and> vl = rev vr \<and> set vr = set vl \<and>
           distinct vr \<and> distinct vl \<and>
           hd vr = dlist_type_head off root' \<and> last vr = dlist_type_tail off root' \<and>
           hd vl = dlist_type_tail off root' \<and> last vl = dlist_type_head off root' \<and>
           (\<forall>i. Suc i < length vr \<longrightarrow>
              next (the (h' (member_addr (vr ! i) off))) = member_addr (vr ! Suc i) off \<and>
              prev (the (h' (member_addr (vr ! Suc i) off))) = member_addr (vr ! i) off)"
proof -
  let ?rs = "abs_run [] ops"
  have t: "tlist off h (dlist_init root) []"
    by (simp add: tlist_def dlist_init_empty)
  from run_correct [OF t assms(1), of "[]"] obtain h' root' where
    r: "run off (h, dlist_init root, []) ops = Inr (h', root', [] @ abs_outs off [] ops)"
      "tlist off h' root' ?rs"
    by blast
  from assms(3) have nf: "\<forall>j<length ?rs. \<not> sets_flag f ?rs a j"
    "\<forall>j<length ?rs. \<not> sets_flag f (rev ?rs) a j"
    by (simp_all add: sets_flag_def)
  have fr: "dlist_type_foldr off h' root' f a = Some (Inr (accs f ?rs a (length ?rs), ?rs))"
    using nf(1) fold_spec_all [of ?rs f a "[]"] by (simp add: tlist_foldr [OF r(2)])
  have fl: "dlist_type_foldl off h' root' f a =
      Some (Inr (accs f (rev ?rs) a (length ?rs), rev ?rs))"
    using nf(2) fold_spec_all [of "rev ?rs" f a "[]"] by (simp add: tlist_foldl [OF r(2)])
  have dist: "distinct ?rs"
    using r(2) by (rule tlist_distinct)
  from r(2) have seg: "dseg h' NULL (map (\<lambda>r. member_addr r off) ?rs) NULL"
    by (simp add: tlist_def dlist_def)
  have adj: "\<forall>i. Suc i < length ?rs \<longrightarrow>
      next (the (h' (member_addr (?rs ! i) off))) = member_addr (?rs ! Suc i) off \<and>
      prev (the (h' (member_addr (?rs ! Suc i) off))) = member_addr (?rs ! i) off"
    using dseg_nth [OF seg] by simp
  have ends: "hd ?rs = dlist_type_head off root'" "last ?rs = dlist_type_tail off root'"
    using tlist_ends(1,2) [OF r(2)] assms(2) by simp_all
  then have ends': "hd (rev ?rs) = dlist_type_tail off root'"
    "last (rev ?rs) = dlist_type_head off root'"
    using assms(2) by (simp_all add: hd_rev last_rev)
  from r(1) fr fl dist adj ends ends' show ?thesis
    by (intro exI [of _ h'] exI [of _ root'] exI [of _ "[] @ abs_outs off [] ops"]
        exI [of _ "accs f ?rs a (length ?rs)"] exI [of _ "accs f (rev ?rs) a (length ?rs)"]
        exI [of _ ?rs] exI [of _ "rev ?rs"]) simp
qed

theorem folds_visit_in_opposite_orders_witness:
  "valid_ops 0 (alloc_heap [8, 16, 24]) [] [Enqueue 8, Pushback 16, Push 24, Remove 8] \<and>
   (\<exists>h' root' outs a1 a2.
      run 0 (alloc_heap [8, 16, 24], dlist_init root0, [])
        [Enqueue 8, Pushback 16, Push 24, Remove 8] = Inr (h', root', outs) \<and>
      dlist_type_foldr 0 h' root' (\<lambda>r b. (Suc b, False)) 0 = Some (Inr (a1, [24, 16])) \<and>
      dlist_type_foldl 0 h' root' (\<lambda>r b. (Suc b, False)) 0 = Some (Inr (a2, [16, 24])))"
proof -
  have v: "valid_ops 0 (alloc_heap [8, 16, 24]) [] [Enqueue 8, Pushback 16, Push 24, Remove 8]"
    by (simp add: insertable_def member_addr_def alloc_heap_def)
  have a: "abs_run [] [Enqueue 8, Pushback 16, Push 24, Remove 8] = [24, 16]"
    by simp
  have ne: "abs_run [] [Enqueue 8, Pushback 16, Push 24, Remove 8] \<noteq> []"
    by simp
  have f: "\<forall>r b. \<not> snd ((\<lambda>r b. (Suc b, False)) (r :: ptr) (b :: nat))"
    by simp
  from folds_visit_in_opposite_orders [OF v ne f, of root0 0, unfolded a] v show ?thesis
    by (auto simp del: run.simps)
qed

section \<open>Round trips and the scenario of twenty records\<close>

lemma abs_run_pushbacks: "abs_run rs (map Pushback ds) = rs @ ds"
  by (induction ds arbitrary: rs) simp_all

lemma abs_run_enqueues: "abs_run rs (map Enqueue ds) = rev ds @ rs"
  by (induction ds arbitrary: rs) simp_all

lemma abs_outs_pushbacks: "abs_outs off rs (map Pushback ds) = []"
  by (induction ds arbitrary: rs) simp_all

lemma abs_outs_enqueues: "abs_outs off rs (map Enqueue ds) = []"
  by (induction ds arbitrary: rs) simp_all

lemma valid_ops_pushbacks:
  "distinct ds \<Longrightarrow> set ds \<inter> set rs = {} \<Longrightarrow>
   \<forall>d\<in>set ds. member_addr d off \<noteq> NULL \<and> h (member_addr d off) \<noteq> None \<Longrightarrow>
   valid_ops off h rs (map Pushback ds)"
  by (induction ds arbitrary: rs) (auto simp: insertable_def)

lemma valid_ops_enqueues:
  "distinct ds \<Longrightarrow> set ds \<inter> set rs = {} \<Longrightarrow>
   \<forall>d\<in>set ds. member_addr d off \<noteq> NULL \<and> h (member_addr d off) \<noteq> None \<Longrightarrow>
   valid_ops off h rs (map Enqueue ds)"
  by (induction ds arbitrary: rs) (auto simp: insertable_def)

lemma valid_ops_pops: "valid_ops off h rs (replicate n Pop)"
  by (induction n arbitrary: rs) simp_all

lemma valid_ops_dequeues: "valid_ops off h rs (replicate n Dequeue)"
  by (induction n arbitrary: rs) simp_all

lemma abs_pops: 
  "abs_outs off rs (replicate (length rs) Pop) = rs \<and> abs_run rs (replicate (length rs) Pop) = []"
  by (induction rs) simp_all

lemma abs_dequeues:
  "abs_outs off rs (replicate (length rs) Dequeue) = rev rs \<and>
   abs_run rs (replicate (length rs) Dequeue) = []"
proof (induction rs rule: rev_induct)
  case Nil
  show ?case by simp
next
  case (snoc x xs)
  then show ?case by simp
qed

lemma run_from_init:
  assumes "valid_ops off h [] ops"
  shows "\<exists>h' root'. run off (h, dlist_init root, []) ops = Inr (h', root', abs_outs off [] ops) \<and>
           tlist off h' root' (abs_run [] ops)"
proof -
  have t: "tlist off h (dlist_init root) []"
    by (simp add: tlist_def dlist_init_empty)
  from run_correct [OF t assms, of "[]"] show ?thesis by auto
qed

text \<open>
  Claim C1, as the code has it. \<^verbatim>\<open>pushback\<close> appends at the tail and \<^verbatim>\<open>dequeue\<close> removes
  at the tail: \<open>N\<close> \<^verbatim>\<open>pushback\<close> calls of distinct records followed by \<open>N\<close> \<^verbatim>\<open>dequeue\<close>
  calls return the records in reverse insertion order, and leave the list empty. The
  same holds for \<open>N\<close> \<^verbatim>\<open>enqueue\<close> calls followed by \<open>N\<close> \<^verbatim>\<open>pop\<close> calls, both at the head.
  Insertion order comes back from \<^verbatim>\<open>pushback\<close> followed by \<^verbatim>\<open>pop\<close>.
\<close>

theorem round_trip_orders:
  assumes "distinct rs"
    "\<forall>r\<in>set rs. member_addr r off \<noteq> NULL \<and> h (member_addr r off) \<noteq> None"
  shows "(\<exists>h' root'. run off (h, dlist_init root, [])
              (map Pushback rs @ replicate (length rs) Dequeue) = Inr (h', root', rev rs) \<and>
            head root' = NULL \<and> tail root' = NULL) \<and>
         (\<exists>h' root'. run off (h, dlist_init root, [])
              (map Enqueue rs @ replicate (length rs) Pop) = Inr (h', root', rev rs) \<and>
            head root' = NULL \<and> tail root' = NULL) \<and>
         (\<exists>h' root'. run off (h, dlist_init root, [])
              (map Pushback rs @ replicate (length rs) Pop) = Inr (h', root', rs) \<and>
            head root' = NULL \<and> tail root' = NULL)"
proof -
  have vp: "valid_ops off h [] (map Pushback rs)" and ve: "valid_ops off h [] (map Enqueue rs)"
    using assms by (simp_all add: valid_ops_pushbacks valid_ops_enqueues)
  have 1: "valid_ops off h [] (map Pushback rs @ replicate (length rs) Dequeue)"
    using vp by (simp add: valid_ops_append valid_ops_dequeues)
  have 2: "valid_ops off h [] (map Enqueue rs @ replicate (length rs) Pop)"
    using ve by (simp add: valid_ops_append valid_ops_pops)
  have 3: "valid_ops off h [] (map Pushback rs @ replicate (length rs) Pop)"
    using vp by (simp add: valid_ops_append valid_ops_pops)
  have o1: "abs_outs off [] (map Pushback rs @ replicate (length rs) Dequeue) = rev rs"
    "abs_run [] (map Pushback rs @ replicate (length rs) Dequeue) = []"
    using abs_dequeues [of off rs]
    by (simp_all add: abs_outs_append abs_run_append abs_outs_pushbacks abs_run_pushbacks)
  have o2: "abs_outs off [] (map Enqueue rs @ replicate (length rs) Pop) = rev rs"
    "abs_run [] (map Enqueue rs @ replicate (length rs) Pop) = []"
    using abs_pops [of off "rev rs"]
    by (simp_all add: abs_outs_append abs_run_append abs_outs_enqueues abs_run_enqueues)
  have o3: "abs_outs off [] (map Pushback rs @ replicate (length rs) Pop) = rs"
    "abs_run [] (map Pushback rs @ replicate (length rs) Pop) = []"
    using abs_pops [of off rs]
    by (simp_all add: abs_outs_append abs_run_append abs_outs_pushbacks abs_run_pushbacks)
  from run_from_init [OF 1, of root] run_from_init [OF 2, of root] run_from_init [OF 3, of root]
  show ?thesis
    unfolding o1 o2 o3 tlist_Nil by blast
qed

theorem round_trip_orders_witness:
  "distinct [8 :: ptr, 16, 24] \<and>
   outputs (run 0 (alloc_heap [8, 16, 24], dlist_init root0, [])
     [Pushback 8, Pushback 16, Pushback 24, Dequeue, Dequeue, Dequeue]) = Inr [24, 16, 8] \<and>
   outputs (run 0 (alloc_heap [8, 16, 24], dlist_init root0, [])
     [Enqueue 8, Enqueue 16, Enqueue 24, Pop, Pop, Pop]) = Inr [24, 16, 8] \<and>
   outputs (run 0 (alloc_heap [8, 16, 24], dlist_init root0, [])
     [Pushback 8, Pushback 16, Pushback 24, Pop, Pop, Pop]) = Inr [8, 16, 24]"
proof -
  have d: "distinct [8 :: ptr, 16, 24]"
    by simp
  have a: "\<forall>r\<in>set [8 :: ptr, 16, 24].
      member_addr r 0 \<noteq> NULL \<and> alloc_heap [8, 16, 24] (member_addr r 0) \<noteq> None"
    by (simp add: member_addr_def alloc_heap_def)
  have l: "replicate (length [8 :: ptr, 16, 24]) Dequeue = [Dequeue, Dequeue, Dequeue]"
    "replicate (length [8 :: ptr, 16, 24]) Pop = [Pop, Pop, Pop]"
    by (simp_all add: numeral_3_eq_3)
  note w = round_trip_orders [OF d a, of root0, unfolded l]
  from w d show ?thesis
    by (auto simp del: run.simps simp: outputs_def bindE_def)
qed

text \<open>
  Claim C1 as the specification words it fails for two records: after \<^verbatim>\<open>pushback\<close> of the
  record at 8 and then of the record at 16, the two \<^verbatim>\<open>dequeue\<close> calls return 16 first.
\<close>

theorem pushback_dequeue_not_fifo:
  "outputs (run 0 (alloc_heap [8, 16], dlist_init root0, [])
     [Pushback 8, Pushback 16, Dequeue, Dequeue]) = Inr [16, 8] \<and>
   outputs (run 0 (alloc_heap [8, 16], dlist_init root0, [])
     [Pushback 8, Pushback 16, Dequeue, Dequeue]) \<noteq> Inr [8, 16]"
  by (simp add: outputs_def dlist_type_pushback_def dlist_type_dequeue_def
      dlist_pushback_def dlist_dequeue_def dlist_init_def root0_def alloc_heap_def
      member_addr_def GET_CONTAINER_def exec_simps)

text \<open>
  Claim C8. The caller's records carry a value, \<open>data\<close>, which no list operation writes.
  Let \<open>rs\<close> be twenty records whose values are 1 to 20 in this order, with allocated
  link nodes. After \<^verbatim>\<open>init\<close> and \<^verbatim>\<open>pushback\<close> of each record of \<open>rs\<close> in order, \<^verbatim>\<open>pop\<close>
  returns the record valued 1 and then \<^verbatim>\<open>dequeue\<close> returns the record valued 20. The
  list left has 18 records, \<^verbatim>\<open>head\<close> returns the one valued 2 and \<^verbatim>\<open>tail\<close> the one
  valued 19.
\<close>

theorem scenario_pushback_twenty:
  assumes "map data rs = [1..20]"
    "\<forall>r\<in>set rs. member_addr r off \<noteq> NULL \<and> h (member_addr r off) \<noteq> None"
  shows "\<exists>h' root' r1 r2 rest.
           run off (h, dlist_init root, []) (map Pushback rs @ [Pop, Dequeue]) =
             Inr (h', root', [r1, r2]) \<and>
           data r1 = 1 \<and> data r2 = 20 \<and>
           tlist off h' root' rest \<and> length rest = 18 \<and>
           data (dlist_type_head off root') = 2 \<and>
           data (dlist_type_tail off root') = 19"
proof -
  from assms(1) have len: "length rs = 20"
    using length_map [of data rs] by simp
  have "distinct (map data rs)"
    unfolding assms(1) by simp
  then have dist: "distinct rs"
    by (simp add: distinct_map)
  have nth: "data (rs ! i) = 1 + int i" if "i < 20" for i
  proof -
    from that len have "data (rs ! i) = map data rs ! i" by simp
    also have "\<dots> = 1 + int i" unfolding assms(1) using that by simp
    finally show ?thesis .
  qed
  let ?rest = "butlast (tl rs)"
  from len have ne: "rs \<noteq> []" "tl rs \<noteq> []" "?rest \<noteq> []" and lr: "length ?rest = 18"
    by (auto simp: length_0_conv [symmetric] simp del: length_0_conv)
  have e: "hd rs = rs ! 0" "last rs = rs ! 19" "hd ?rest = rs ! 1" "last ?rest = rs ! 18"
    using len ne lr
    by (simp_all add: hd_conv_nth last_conv_nth nth_butlast nth_tl)
  have v: "valid_ops off h [] (map Pushback rs @ [Pop, Dequeue])"
    using dist assms(2) by (simp add: valid_ops_append valid_ops_pushbacks)
  have o: "abs_outs off [] (map Pushback rs @ [Pop, Dequeue]) = [hd rs, last rs]"
    "abs_run [] (map Pushback rs @ [Pop, Dequeue]) = ?rest"
    using ne by (simp_all add: abs_outs_append abs_run_append abs_outs_pushbacks
        abs_run_pushbacks last_tl)
  from run_from_init [OF v, of root] obtain h' root' where
    r: "run off (h, dlist_init root, []) (map Pushback rs @ [Pop, Dequeue]) =
          Inr (h', root', [hd rs, last rs])"
      "tlist off h' root' ?rest"
    unfolding o by blast
  from tlist_ends(1,2) [OF r(2)] ne(3) have
    "dlist_type_head off root' = rs ! 1" "dlist_type_tail off root' = rs ! 18"
    by (simp_all add: e)
  with r lr e nth [of 0] nth [of 19] nth [of 1] nth [of 18] show ?thesis
    by (intro exI [of _ h'] exI [of _ root'] exI [of _ "hd rs"] exI [of _ "last rs"]
        exI [of _ ?rest]) simp
qed

theorem scenario_pushback_twenty_witness:
  "map rec_data twenty_recs = [1..20] \<and>
   (\<exists>h' root' r1 r2.
      run 8 (twenty_heap, dlist_init root0, []) (map Pushback twenty_recs @ [Pop, Dequeue]) =
        Inr (h', root', [r1, r2]) \<and>
      rec_data r1 = 1 \<and> rec_data r2 = 20 \<and>
      rec_data (dlist_type_head 8 root') = 2 \<and>
      rec_data (dlist_type_tail 8 root') = 19)"
proof -
  have d: "map rec_data twenty_recs = [1..20]"
    by (simp add: rec_data_def twenty_recs_def upto_rec1)
  have a: "\<forall>r\<in>set twenty_recs.
      member_addr r 8 \<noteq> NULL \<and> twenty_heap (member_addr r 8) \<noteq> None"
    by (simp add: twenty_heap_def alloc_heap_def twenty_recs_def member_addr_def)
  from scenario_pushback_twenty [OF d a, of root0] d show ?thesis
    by blast
qed

end
